theory Spec2Isabelle
  imports Main "HOL-Library.Word" "HOL-Library.Multiset"
begin

unbundle bit_operations_syntax

section \<open>Squares, colours, pieces and moves\<close>

text \<open>
  The move generator (\<^verbatim>\<open>movegen.cpp\<close>) works on the types of the engine's headers:
  a square is a small integer (a1 = 0, b1 = 1, ..., h8 = 63, \<^verbatim>\<open>SQ_NONE\<close> = 64), square
  deltas are signed integers, a bitboard is a 64-bit word whose bit \<open>s\<close> stands for square
  \<open>s\<close>.
\<close>

type_synonym Bitboard = "64 word"
type_synonym Square = int

datatype Color = WHITE | BLACK
datatype PieceType = PAWN | KNIGHT | BISHOP | ROOK | QUEEN | KING
datatype Piece = EMPTY | Pc Color PieceType

abbreviation (input) SQ_NONE :: Square where "SQ_NONE \<equiv> 64"

abbreviation (input) DELTA_N :: int where "DELTA_N \<equiv> 8"
abbreviation (input) DELTA_S :: int where "DELTA_S \<equiv> - 8"
abbreviation (input) DELTA_E :: int where "DELTA_E \<equiv> 1"
abbreviation (input) DELTA_W :: int where "DELTA_W \<equiv> - 1"
abbreviation (input) DELTA_NE :: int where "DELTA_NE \<equiv> 9"
abbreviation (input) DELTA_NW :: int where "DELTA_NW \<equiv> 7"
abbreviation (input) DELTA_SE :: int where "DELTA_SE \<equiv> - 7"
abbreviation (input) DELTA_SW :: int where "DELTA_SW \<equiv> - 9"
abbreviation (input) DELTA_NN :: int where "DELTA_NN \<equiv> 16"
abbreviation (input) DELTA_SS :: int where "DELTA_SS \<equiv> - 16"

abbreviation (input) FILE_A :: int where "FILE_A \<equiv> 0"
abbreviation (input) FILE_B :: int where "FILE_B \<equiv> 1"
abbreviation (input) FILE_H :: int where "FILE_H \<equiv> 7"
abbreviation (input) RANK_1 :: int where "RANK_1 \<equiv> 0"
abbreviation (input) RANK_3 :: int where "RANK_3 \<equiv> 2"
abbreviation (input) RANK_4 :: int where "RANK_4 \<equiv> 3"
abbreviation (input) RANK_5 :: int where "RANK_5 \<equiv> 4"
abbreviation (input) RANK_6 :: int where "RANK_6 \<equiv> 5"
abbreviation (input) RANK_8 :: int where "RANK_8 \<equiv> 7"

abbreviation (input) SQ_A1 :: Square where "SQ_A1 \<equiv> 0"
abbreviation (input) SQ_C1 :: Square where "SQ_C1 \<equiv> 2"
abbreviation (input) SQ_D1 :: Square where "SQ_D1 \<equiv> 3"
abbreviation (input) SQ_F1 :: Square where "SQ_F1 \<equiv> 5"
abbreviation (input) SQ_G1 :: Square where "SQ_G1 \<equiv> 6"

fun opposite_color :: "Color \<Rightarrow> Color" where
  "opposite_color WHITE = BLACK"
| "opposite_color BLACK = WHITE"

fun color_of_piece :: "Piece \<Rightarrow> Color option" where
  "color_of_piece EMPTY = None"
| "color_of_piece (Pc c t) = Some c"

fun type_of_piece :: "Piece \<Rightarrow> PieceType option" where
  "type_of_piece EMPTY = None"
| "type_of_piece (Pc c t) = Some t"

definition pawn_of_color :: "Color \<Rightarrow> Piece" where "pawn_of_color c = Pc c PAWN"
definition rook_of_color :: "Color \<Rightarrow> Piece" where "rook_of_color c = Pc c ROOK"
definition queen_of_color :: "Color \<Rightarrow> Piece" where "queen_of_color c = Pc c QUEEN"
definition king_of_color :: "Color \<Rightarrow> Piece" where "king_of_color c = Pc c KING"

definition square_file :: "Square \<Rightarrow> int" where "square_file s = s mod 8"
definition square_rank :: "Square \<Rightarrow> int" where "square_rank s = s div 8"
definition make_square :: "int \<Rightarrow> int \<Rightarrow> Square" where "make_square f r = r * 8 + f"

definition relative_square :: "Color \<Rightarrow> Square \<Rightarrow> Square" where
  "relative_square c s = (if c = WHITE then s else make_square (square_file s) (7 - square_rank s))"

definition relative_rank :: "Color \<Rightarrow> Square \<Rightarrow> int" where
  "relative_rank c s = (if c = WHITE then square_rank s else 7 - square_rank s)"

definition pawn_push :: "Color \<Rightarrow> int" where
  "pawn_push c = (if c = WHITE then DELTA_N else DELTA_S)"

definition square_is_ok :: "Square \<Rightarrow> bool" where
  "square_is_ok s \<longleftrightarrow> 0 \<le> s \<and> s < 64"

text \<open>
  Modelled from the spec: the \<^verbatim>\<open>Move\<close> encoding (\<^verbatim>\<open>move.h\<close> is not part of the sources).
  A move is the tuple (from, to, kind, promotion) of the specification; the kind is
  carried by the en-passant and castle flags, a castle is encoded king square to rook
  square, and \<^verbatim>\<open>MOVE_NONE\<close> is the all-zero move.
\<close>

record Move =
  move_from :: Square
  move_to :: Square
  move_promotion :: "PieceType option"
  move_is_ep :: bool
  move_is_castle :: bool

definition MOVE_NONE :: Move where
  "MOVE_NONE = \<lparr>move_from = 0, move_to = 0, move_promotion = None, move_is_ep = False,
     move_is_castle = False\<rparr>"

definition make_move :: "Square \<Rightarrow> Square \<Rightarrow> Move" where
  "make_move f t = \<lparr>move_from = f, move_to = t, move_promotion = None, move_is_ep = False,
     move_is_castle = False\<rparr>"

definition make_promotion_move :: "Square \<Rightarrow> Square \<Rightarrow> PieceType \<Rightarrow> Move" where
  "make_promotion_move f t p = \<lparr>move_from = f, move_to = t, move_promotion = Some p,
     move_is_ep = False, move_is_castle = False\<rparr>"

definition make_ep_move :: "Square \<Rightarrow> Square \<Rightarrow> Move" where
  "make_ep_move f t = \<lparr>move_from = f, move_to = t, move_promotion = None, move_is_ep = True,
     move_is_castle = False\<rparr>"

definition make_castle_move :: "Square \<Rightarrow> Square \<Rightarrow> Move" where
  "make_castle_move f t = \<lparr>move_from = f, move_to = t, move_promotion = None,
     move_is_ep = False, move_is_castle = True\<rparr>"

definition move_is_short_castle :: "Move \<Rightarrow> bool" where
  "move_is_short_castle m \<longleftrightarrow> move_is_castle m \<and> move_to m > move_from m"

definition move_is_long_castle :: "Move \<Rightarrow> bool" where
  "move_is_long_castle m \<longleftrightarrow> move_is_castle m \<and> move_to m < move_from m"

definition move_is_ok :: "Move \<Rightarrow> bool" where
  "move_is_ok m \<longleftrightarrow> square_is_ok (move_from m) \<and> square_is_ok (move_to m)
     \<and> move_from m \<noteq> move_to m"

section \<open>Bitboards\<close>

text \<open>
  Modelled from the spec: the bitboard primitives of \<^verbatim>\<open>bitboard.h\<close> (not part of the
  sources). \<open>bb_of P\<close> is the bitboard of the squares that satisfy \<open>P\<close>; \<open>first_1\<close> is
  the lowest set square; \<open>pop_1st_bit\<close> returns it and clears it.
\<close>

definition bb_of :: "(Square \<Rightarrow> bool) \<Rightarrow> Bitboard" where
  "bb_of P = horner_sum of_bool 2 (map (\<lambda>i. P (int i)) [0..<64])"

abbreviation (input) EmptyBoardBB :: Bitboard where "EmptyBoardBB \<equiv> 0"

definition bit_is_set :: "Bitboard \<Rightarrow> Square \<Rightarrow> bool" where
  "bit_is_set b s \<longleftrightarrow> bit b (nat s)"

definition clear_bit :: "Bitboard \<Rightarrow> Square \<Rightarrow> Bitboard" where
  "clear_bit b s = b AND NOT (push_bit (nat s) 1)"

definition first_1 :: "Bitboard \<Rightarrow> Square" where
  "first_1 b = int (length (takeWhile (\<lambda>i. \<not> bit b i) [0..<64]))"

definition pop_1st_bit :: "Bitboard \<Rightarrow> Square \<times> Bitboard" where
  "pop_1st_bit b = (first_1 b, b AND (b - 1))"

definition Rank1BB :: Bitboard where "Rank1BB = bb_of (\<lambda>s. square_rank s = RANK_1)"
definition Rank3BB :: Bitboard where "Rank3BB = bb_of (\<lambda>s. square_rank s = RANK_3)"
definition Rank6BB :: Bitboard where "Rank6BB = bb_of (\<lambda>s. square_rank s = RANK_6)"
definition Rank8BB :: Bitboard where "Rank8BB = bb_of (\<lambda>s. square_rank s = RANK_8)"
definition FileABB :: Bitboard where "FileABB = bb_of (\<lambda>s. square_file s = FILE_A)"
definition FileHBB :: Bitboard where "FileHBB = bb_of (\<lambda>s. square_file s = FILE_H)"

definition file_bb :: "Square \<Rightarrow> Bitboard" where
  "file_bb sq = bb_of (\<lambda>s. square_file s = square_file sq)"

definition neighboring_files_bb :: "Square \<Rightarrow> Bitboard" where
  "neighboring_files_bb sq = bb_of (\<lambda>s. \<bar>square_file s - square_file sq\<bar> = 1)"

text \<open>
  The loop \<^verbatim>\<open>while (b) { s = pop_1st_bit(&b); ... }\<close> that every generator runs over
  a bitboard: \<open>pop_squares b\<close> is the sequence of squares it visits.
\<close>

function pop_squares :: "Bitboard \<Rightarrow> Square list" where
  "pop_squares b =
     (if b = 0 then [] else (case pop_1st_bit b of (s, b') \<Rightarrow> s # pop_squares b'))"
  by pat_completeness auto
termination
  apply (relation "measure unat")
   apply simp
  apply (clarsimp simp: pop_1st_bit_def)
  using less_eq_dec_iff word_and_le1 word_less_nat_alt apply blast
  done

declare pop_squares.simps [simp del]

definition bb_squares :: "Bitboard \<Rightarrow> Square set" where
  "bb_squares b = {s. 0 \<le> s \<and> s < 64 \<and> bit b (nat s)}"

section \<open>The position\<close>

text \<open>
  Modelled from the spec: the \<^verbatim>\<open>Position\<close> class (\<^verbatim>\<open>position.h\<close> is not part of the
  sources). The generator reads the position only through the capability set of the
  specification; the record holds the data those capabilities answer from, and the
  bitboards are the ones consistent with the board.
\<close>

record Position =
  piece_on :: "Square \<Rightarrow> Piece"
  side_to_move :: Color
  ep_square :: Square
  king_square :: "Color \<Rightarrow> Square"
  can_castle_kingside :: "Color \<Rightarrow> bool"
  can_castle_queenside :: "Color \<Rightarrow> bool"
  initialKRFile :: int
  initialQRFile :: int

definition initial_kr_square :: "Position \<Rightarrow> Color \<Rightarrow> Square" where
  "initial_kr_square pos c = relative_square c (make_square (initialKRFile pos) RANK_1)"

definition initial_qr_square :: "Position \<Rightarrow> Color \<Rightarrow> Square" where
  "initial_qr_square pos c = relative_square c (make_square (initialQRFile pos) RANK_1)"

definition can_castle :: "Position \<Rightarrow> Color \<Rightarrow> bool" where
  "can_castle pos c \<longleftrightarrow> can_castle_kingside pos c \<or> can_castle_queenside pos c"

definition color_of_piece_on :: "Position \<Rightarrow> Square \<Rightarrow> Color option" where
  "color_of_piece_on pos s = color_of_piece (piece_on pos s)"

definition square_is_empty :: "Position \<Rightarrow> Square \<Rightarrow> bool" where
  "square_is_empty pos s \<longleftrightarrow> piece_on pos s = EMPTY"

definition square_is_occupied :: "Position \<Rightarrow> Square \<Rightarrow> bool" where
  "square_is_occupied pos s \<longleftrightarrow> piece_on pos s \<noteq> EMPTY"

definition pieces_of_color :: "Position \<Rightarrow> Color \<Rightarrow> Bitboard" where
  "pieces_of_color pos c = bb_of (\<lambda>s. color_of_piece (piece_on pos s) = Some c)"

definition pieces_of_color_and_type :: "Position \<Rightarrow> Color \<Rightarrow> PieceType \<Rightarrow> Bitboard" where
  "pieces_of_color_and_type pos c t = bb_of (\<lambda>s. piece_on pos s = Pc c t)"

definition pawns :: "Position \<Rightarrow> Color \<Rightarrow> Bitboard" where
  "pawns pos c = pieces_of_color_and_type pos c PAWN"
definition knights :: "Position \<Rightarrow> Color \<Rightarrow> Bitboard" where
  "knights pos c = pieces_of_color_and_type pos c KNIGHT"
definition bishops :: "Position \<Rightarrow> Color \<Rightarrow> Bitboard" where
  "bishops pos c = pieces_of_color_and_type pos c BISHOP"
definition rooks :: "Position \<Rightarrow> Color \<Rightarrow> Bitboard" where
  "rooks pos c = pieces_of_color_and_type pos c ROOK"
definition queens :: "Position \<Rightarrow> Color \<Rightarrow> Bitboard" where
  "queens pos c = pieces_of_color_and_type pos c QUEEN"
definition kings :: "Position \<Rightarrow> Color \<Rightarrow> Bitboard" where
  "kings pos c = pieces_of_color_and_type pos c KING"

definition bishops_and_queens :: "Position \<Rightarrow> Color \<Rightarrow> Bitboard" where
  "bishops_and_queens pos c = bishops pos c OR queens pos c"
definition rooks_and_queens :: "Position \<Rightarrow> Color \<Rightarrow> Bitboard" where
  "rooks_and_queens pos c = rooks pos c OR queens pos c"

definition sliders :: "Position \<Rightarrow> Bitboard" where
  "sliders pos = bb_of (\<lambda>s. type_of_piece (piece_on pos s) \<in> {Some BISHOP, Some ROOK, Some QUEEN})"

definition occupied_squares :: "Position \<Rightarrow> Bitboard" where
  "occupied_squares pos = bb_of (\<lambda>s. piece_on pos s \<noteq> EMPTY)"

definition empty_squares :: "Position \<Rightarrow> Bitboard" where
  "empty_squares pos = NOT (occupied_squares pos)"

text \<open>
  Modelled from the spec: the piece lists. \<open>piece_list pos c t i\<close> is the square of the
  \<open>i\<close>-th piece of colour \<open>c\<close> and type \<open>t\<close>, \<open>piece_count\<close> their number; the lists are
  consistent with the board.
\<close>

definition piece_squares :: "Position \<Rightarrow> Color \<Rightarrow> PieceType \<Rightarrow> Square list" where
  "piece_squares pos c t = filter (\<lambda>s. piece_on pos s = Pc c t) (map int [0..<64])"

definition piece_count :: "Position \<Rightarrow> Color \<Rightarrow> PieceType \<Rightarrow> nat" where
  "piece_count pos c t = length (piece_squares pos c t)"

definition piece_list :: "Position \<Rightarrow> Color \<Rightarrow> PieceType \<Rightarrow> nat \<Rightarrow> Square" where
  "piece_list pos c t i = piece_squares pos c t ! i"

section \<open>Attacks\<close>

text \<open>
  Modelled from the spec: the attack tables and the occupancy-parameterised slider
  attacks (\<^verbatim>\<open>bitboard.cpp\<close>, \<^verbatim>\<open>position.h\<close> are not part of the sources).
  \<open>pawn_attacks c s\<close> are the squares a pawn of colour \<open>c\<close> on \<open>s\<close> attacks;
  a slider attacks along its lines up to and including the first occupied square.
\<close>

definition file_distance :: "Square \<Rightarrow> Square \<Rightarrow> int" where
  "file_distance a b = \<bar>square_file a - square_file b\<bar>"

definition rank_distance :: "Square \<Rightarrow> Square \<Rightarrow> int" where
  "rank_distance a b = \<bar>square_rank a - square_rank b\<bar>"

definition pawn_attacks :: "Color \<Rightarrow> Square \<Rightarrow> Bitboard" where
  "pawn_attacks c s = bb_of (\<lambda>t. file_distance s t = 1
     \<and> square_rank t = square_rank s + (if c = WHITE then 1 else - 1))"

definition white_pawn_attacks :: "Square \<Rightarrow> Bitboard" where
  "white_pawn_attacks s = pawn_attacks WHITE s"

definition black_pawn_attacks :: "Square \<Rightarrow> Bitboard" where
  "black_pawn_attacks s = pawn_attacks BLACK s"

definition knight_attacks :: "Square \<Rightarrow> Bitboard" where
  "knight_attacks s = bb_of (\<lambda>t. (file_distance s t = 1 \<and> rank_distance s t = 2)
     \<or> (file_distance s t = 2 \<and> rank_distance s t = 1))"

definition king_attacks :: "Square \<Rightarrow> Bitboard" where
  "king_attacks s = bb_of (\<lambda>t. t \<noteq> s \<and> file_distance s t \<le> 1 \<and> rank_distance s t \<le> 1)"

definition on_rook_line :: "Square \<Rightarrow> Square \<Rightarrow> bool" where
  "on_rook_line a b \<longleftrightarrow> a \<noteq> b \<and> (square_file a = square_file b \<or> square_rank a = square_rank b)"

definition on_bishop_line :: "Square \<Rightarrow> Square \<Rightarrow> bool" where
  "on_bishop_line a b \<longleftrightarrow> a \<noteq> b \<and> file_distance a b = rank_distance a b"

definition line_step :: "Square \<Rightarrow> Square \<Rightarrow> int" where
  "line_step a b = 8 * sgn (square_rank b - square_rank a) + sgn (square_file b - square_file a)"

definition between_squares :: "Square \<Rightarrow> Square \<Rightarrow> Square list" where
  "between_squares a b =
     (if on_rook_line a b \<or> on_bishop_line a b
      then map (\<lambda>k. a + int k * line_step a b)
             [1..<nat (max (file_distance a b) (rank_distance a b))]
      else [])"

definition squares_between :: "Square \<Rightarrow> Square \<Rightarrow> Bitboard" where
  "squares_between a b = bb_of (\<lambda>s. s \<in> set (between_squares a b))"

definition path_clear :: "Bitboard \<Rightarrow> Square \<Rightarrow> Square \<Rightarrow> bool" where
  "path_clear occ a b \<longleftrightarrow> list_all (\<lambda>s. \<not> bit occ (nat s)) (between_squares a b)"

definition rook_attacks_bb :: "Square \<Rightarrow> Bitboard \<Rightarrow> Bitboard" where
  "rook_attacks_bb s occ = bb_of (\<lambda>t. on_rook_line s t \<and> path_clear occ s t)"

definition bishop_attacks_bb :: "Square \<Rightarrow> Bitboard \<Rightarrow> Bitboard" where
  "bishop_attacks_bb s occ = bb_of (\<lambda>t. on_bishop_line s t \<and> path_clear occ s t)"

definition rook_attacks :: "Position \<Rightarrow> Square \<Rightarrow> Bitboard" where
  "rook_attacks pos s = rook_attacks_bb s (occupied_squares pos)"

definition bishop_attacks :: "Position \<Rightarrow> Square \<Rightarrow> Bitboard" where
  "bishop_attacks pos s = bishop_attacks_bb s (occupied_squares pos)"

definition queen_attacks :: "Position \<Rightarrow> Square \<Rightarrow> Bitboard" where
  "queen_attacks pos s = rook_attacks pos s OR bishop_attacks pos s"

definition QueenPseudoAttacks :: "Square \<Rightarrow> Bitboard" where
  "QueenPseudoAttacks s = rook_attacks_bb s EmptyBoardBB OR bishop_attacks_bb s EmptyBoardBB"

text \<open>
  Modelled from the spec: attack queries of the position. \<open>attackers_bb pos occ s c\<close> are
  the pieces of colour \<open>c\<close> that attack \<open>s\<close> when the sliders see the occupancy \<open>occ\<close>;
  \<open>checkers\<close> are the enemy pieces attacking the king of the side to move.
\<close>

definition attackers_bb :: "Position \<Rightarrow> Bitboard \<Rightarrow> Square \<Rightarrow> Color \<Rightarrow> Bitboard" where
  "attackers_bb pos occ s c =
     (pawn_attacks (opposite_color c) s AND pawns pos c)
     OR (knight_attacks s AND knights pos c)
     OR (king_attacks s AND kings pos c)
     OR (bishop_attacks_bb s occ AND bishops_and_queens pos c)
     OR (rook_attacks_bb s occ AND rooks_and_queens pos c)"

definition square_is_attacked :: "Position \<Rightarrow> Square \<Rightarrow> Color \<Rightarrow> bool" where
  "square_is_attacked pos s c \<longleftrightarrow> attackers_bb pos (occupied_squares pos) s c \<noteq> EmptyBoardBB"

definition checkers :: "Position \<Rightarrow> Bitboard" where
  "checkers pos = attackers_bb pos (occupied_squares pos)
     (king_square pos (side_to_move pos)) (opposite_color (side_to_move pos))"

definition is_check :: "Position \<Rightarrow> bool" where
  "is_check pos \<longleftrightarrow> checkers pos \<noteq> EmptyBoardBB"

fun piece_attacks_square :: "Position \<Rightarrow> Square \<Rightarrow> Square \<Rightarrow> bool" where
  "piece_attacks_square pos f t =
     (case piece_on pos f of
        EMPTY \<Rightarrow> False
      | Pc c PAWN \<Rightarrow> bit_is_set (pawn_attacks c f) t
      | Pc c KNIGHT \<Rightarrow> bit_is_set (knight_attacks f) t
      | Pc c BISHOP \<Rightarrow> bit_is_set (bishop_attacks pos f) t
      | Pc c ROOK \<Rightarrow> bit_is_set (rook_attacks pos f) t
      | Pc c QUEEN \<Rightarrow> bit_is_set (queen_attacks pos f) t
      | Pc c KING \<Rightarrow> bit_is_set (king_attacks f) t)"

text \<open>
  Modelled from the spec: pins and discovered-check candidates. A piece of colour \<open>c\<close> is
  pinned when it is the only piece between the king of \<open>c\<close> and an enemy slider that
  moves along their common line; it is a discovered-check candidate when it is the only
  piece between the enemy king and a slider of its own side.
\<close>

definition slider_on_line :: "Position \<Rightarrow> Color \<Rightarrow> Square \<Rightarrow> Square \<Rightarrow> bool" where
  "slider_on_line pos c k e \<longleftrightarrow>
     (on_rook_line k e \<and> (piece_on pos e = Pc c ROOK \<or> piece_on pos e = Pc c QUEEN))
     \<or> (on_bishop_line k e \<and> (piece_on pos e = Pc c BISHOP \<or> piece_on pos e = Pc c QUEEN))"

definition sole_blocker :: "Position \<Rightarrow> Square \<Rightarrow> Square \<Rightarrow> Square \<Rightarrow> bool" where
  "sole_blocker pos k e s \<longleftrightarrow> s \<in> set (between_squares k e)
     \<and> list_all (\<lambda>x. x = s \<or> piece_on pos x = EMPTY) (between_squares k e)"

definition pinned_pieces :: "Position \<Rightarrow> Color \<Rightarrow> Bitboard" where
  "pinned_pieces pos c = bb_of (\<lambda>s. color_of_piece (piece_on pos s) = Some c
     \<and> list_ex (\<lambda>e. slider_on_line pos (opposite_color c) (king_square pos c) e
          \<and> sole_blocker pos (king_square pos c) e s) (map int [0..<64]))"

definition discovered_check_candidates :: "Position \<Rightarrow> Color \<Rightarrow> Bitboard" where
  "discovered_check_candidates pos c = bb_of (\<lambda>s. color_of_piece (piece_on pos s) = Some c
     \<and> list_ex (\<lambda>e. slider_on_line pos c (king_square pos (opposite_color c)) e
          \<and> sole_blocker pos (king_square pos (opposite_color c)) e s) (map int [0..<64]))"

text \<open>
  Modelled from the spec: \<^verbatim>\<open>Position::move_is_legal(m, pinned)\<close> (section 4.9 of the
  specification). A king move is legal when its destination is not attacked with the
  king removed from the occupancy; an en-passant capture when removing both pawns does
  not expose the king to a slider; any other move when the moving piece is not pinned or
  stays on the line through the king. The specification is silent on castle moves, which
  the castle generator has already checked: they pass.
\<close>

definition on_same_line :: "Square \<Rightarrow> Square \<Rightarrow> Square \<Rightarrow> bool" where
  "on_same_line k a b \<longleftrightarrow>
     (on_rook_line k a \<or> on_bishop_line k a) \<and> (on_rook_line k b \<or> on_bishop_line k b)
     \<and> (line_step k a = line_step k b \<or> line_step k a = - line_step k b)"

definition move_is_legal :: "Position \<Rightarrow> Move \<Rightarrow> Bitboard \<Rightarrow> bool" where
  "move_is_legal pos m pinned =
     (let us = side_to_move pos; them = opposite_color us;
          from = move_from m; to = move_to m; ksq = king_square pos us
      in if move_is_castle m then True
         else if move_is_ep m then
           (let b = clear_bit (clear_bit (occupied_squares pos) from) (to - pawn_push us)
            in (bishop_attacks_bb ksq b AND bishops_and_queens pos them) = EmptyBoardBB
               \<and> (rook_attacks_bb ksq b AND rooks_and_queens pos them) = EmptyBoardBB)
         else if from = ksq then
           attackers_bb pos (clear_bit (occupied_squares pos) ksq) to them = EmptyBoardBB
         else \<not> bit_is_set pinned from \<or> on_same_line ksq from to)"

definition move_is_legal1 :: "Position \<Rightarrow> Move \<Rightarrow> bool" where
  "move_is_legal1 pos m = move_is_legal pos m (pinned_pieces pos (side_to_move pos))"

section \<open>The move generator\<close>

text \<open>
  Every generator of \<^verbatim>\<open>movegen.cpp\<close> writes its moves to \<^verbatim>\<open>mlist[0..n-1]\<close> and
  returns \<open>n\<close>; the model returns that segment of the buffer as a list, whose length is
  the returned count. \<open>for_each_square b body\<close> is the loop
  \<^verbatim>\<open>while (b) { sq = pop_1st_bit(&b); body }\<close>, where \<open>body sq\<close> are the moves one
  iteration appends.
\<close>

definition for_each_square :: "Bitboard \<Rightarrow> (Square \<Rightarrow> Move list) \<Rightarrow> Move list" where
  "for_each_square b body = concat (map body (pop_squares b))"

definition generate_white_pawn_captures :: "Position \<Rightarrow> Move list" where
  "generate_white_pawn_captures pos =
     (let pwns = pawns pos WHITE;
          enemyPieces = pieces_of_color pos BLACK;
          b1 = push_bit 9 pwns AND NOT FileABB AND enemyPieces;
          l1 = for_each_square (b1 AND Rank8BB)
                 (\<lambda>sq. [make_promotion_move (sq - DELTA_NE) sq QUEEN]);
          l2 = for_each_square (b1 AND NOT Rank8BB) (\<lambda>sq. [make_move (sq - DELTA_NE) sq]);
          b1 = push_bit 7 pwns AND NOT FileHBB AND enemyPieces;
          l3 = for_each_square (b1 AND Rank8BB)
                 (\<lambda>sq. [make_promotion_move (sq - DELTA_NW) sq QUEEN]);
          l4 = for_each_square (b1 AND NOT Rank8BB) (\<lambda>sq. [make_move (sq - DELTA_NW) sq]);
          b1 = push_bit 8 pwns AND empty_squares pos AND Rank8BB;
          l5 = for_each_square b1 (\<lambda>sq. [make_promotion_move (sq - DELTA_N) sq QUEEN]);
          l6 = (if ep_square pos \<noteq> SQ_NONE
                then for_each_square (pwns AND black_pawn_attacks (ep_square pos))
                       (\<lambda>sq. [make_ep_move sq (ep_square pos)])
                else [])
      in l1 @ l2 @ l3 @ l4 @ l5 @ l6)"

definition generate_black_pawn_captures :: "Position \<Rightarrow> Move list" where
  "generate_black_pawn_captures pos =
     (let pwns = pawns pos BLACK;
          enemyPieces = pieces_of_color pos WHITE;
          b1 = drop_bit 7 pwns AND NOT FileABB AND enemyPieces;
          l1 = for_each_square (b1 AND Rank1BB)
                 (\<lambda>sq. [make_promotion_move (sq - DELTA_SE) sq QUEEN]);
          l2 = for_each_square (b1 AND NOT Rank1BB) (\<lambda>sq. [make_move (sq - DELTA_SE) sq]);
          b1 = drop_bit 9 pwns AND NOT FileHBB AND enemyPieces;
          l3 = for_each_square (b1 AND Rank1BB)
                 (\<lambda>sq. [make_promotion_move (sq - DELTA_SW) sq QUEEN]);
          l4 = for_each_square (b1 AND NOT Rank1BB) (\<lambda>sq. [make_move (sq - DELTA_SW) sq]);
          b1 = drop_bit 8 pwns AND empty_squares pos AND Rank1BB;
          l5 = for_each_square b1 (\<lambda>sq. [make_promotion_move (sq - DELTA_S) sq QUEEN]);
          l6 = (if ep_square pos \<noteq> SQ_NONE
                then for_each_square (pwns AND white_pawn_attacks (ep_square pos))
                       (\<lambda>sq. [make_ep_move sq (ep_square pos)])
                else [])
      in l1 @ l2 @ l3 @ l4 @ l5 @ l6)"

definition generate_white_pawn_noncaptures :: "Position \<Rightarrow> Move list" where
  "generate_white_pawn_noncaptures pos =
     (let pwns = pawns pos WHITE;
          enemyPieces = pieces_of_color pos BLACK;
          emptySquares = empty_squares pos;
          b1 = push_bit 9 pwns AND NOT FileABB AND enemyPieces AND Rank8BB;
          l1 = for_each_square b1 (\<lambda>sq.
                 [make_promotion_move (sq - DELTA_NE) sq ROOK,
                  make_promotion_move (sq - DELTA_NE) sq BISHOP,
                  make_promotion_move (sq - DELTA_NE) sq KNIGHT]);
          b1 = push_bit 7 pwns AND NOT FileHBB AND enemyPieces AND Rank8BB;
          l2 = for_each_square b1 (\<lambda>sq.
                 [make_promotion_move (sq - DELTA_NW) sq ROOK,
                  make_promotion_move (sq - DELTA_NW) sq BISHOP,
                  make_promotion_move (sq - DELTA_NW) sq KNIGHT]);
          b1 = push_bit 8 pwns AND emptySquares;
          l3 = for_each_square (b1 AND Rank8BB) (\<lambda>sq.
                 [make_promotion_move (sq - DELTA_N) sq ROOK,
                  make_promotion_move (sq - DELTA_N) sq BISHOP,
                  make_promotion_move (sq - DELTA_N) sq KNIGHT]);
          l4 = for_each_square (b1 AND NOT Rank8BB) (\<lambda>sq. [make_move (sq - DELTA_N) sq]);
          b2 = push_bit 8 (b1 AND Rank3BB) AND emptySquares;
          l5 = for_each_square b2 (\<lambda>sq. [make_move (sq - DELTA_N - DELTA_N) sq])
      in l1 @ l2 @ l3 @ l4 @ l5)"

definition generate_black_pawn_noncaptures :: "Position \<Rightarrow> Move list" where
  "generate_black_pawn_noncaptures pos =
     (let pwns = pawns pos BLACK;
          enemyPieces = pieces_of_color pos WHITE;
          emptySquares = empty_squares pos;
          b1 = drop_bit 7 pwns AND NOT FileABB AND enemyPieces AND Rank1BB;
          l1 = for_each_square b1 (\<lambda>sq.
                 [make_promotion_move (sq - DELTA_SE) sq ROOK,
                  make_promotion_move (sq - DELTA_SE) sq BISHOP,
                  make_promotion_move (sq - DELTA_SE) sq KNIGHT]);
          b1 = drop_bit 9 pwns AND NOT FileHBB AND enemyPieces AND Rank1BB;
          l2 = for_each_square b1 (\<lambda>sq.
                 [make_promotion_move (sq - DELTA_SW) sq ROOK,
                  make_promotion_move (sq - DELTA_SW) sq BISHOP,
                  make_promotion_move (sq - DELTA_SW) sq KNIGHT]);
          b1 = drop_bit 8 pwns AND emptySquares;
          l3 = for_each_square (b1 AND Rank1BB) (\<lambda>sq.
                 [make_promotion_move (sq - DELTA_S) sq ROOK,
                  make_promotion_move (sq - DELTA_S) sq BISHOP,
                  make_promotion_move (sq - DELTA_S) sq KNIGHT]);
          l4 = for_each_square (b1 AND NOT Rank1BB) (\<lambda>sq. [make_move (sq - DELTA_S) sq]);
          b2 = drop_bit 8 (b1 AND Rank6BB) AND emptySquares;
          l5 = for_each_square b2 (\<lambda>sq. [make_move (sq - DELTA_S - DELTA_S) sq])
      in l1 @ l2 @ l3 @ l4 @ l5)"

text \<open>
  \<^verbatim>\<open>piece_attacks_fn[piece]\<close> is the table of attack functions indexed by piece type
  (declared in a header that is not part of the sources); \<^verbatim>\<open>generate_piece_moves\<close> is
  only called for knights, bishops, rooks and queens.
\<close>

fun piece_attacks_fn :: "PieceType \<Rightarrow> Position \<Rightarrow> Square \<Rightarrow> Bitboard" where
  "piece_attacks_fn KNIGHT pos s = knight_attacks s"
| "piece_attacks_fn BISHOP pos s = bishop_attacks pos s"
| "piece_attacks_fn ROOK pos s = rook_attacks pos s"
| "piece_attacks_fn QUEEN pos s = queen_attacks pos s"
| "piece_attacks_fn KING pos s = king_attacks s"
| "piece_attacks_fn PAWN pos s = EmptyBoardBB"

definition generate_piece_moves ::
  "PieceType \<Rightarrow> Position \<Rightarrow> Color \<Rightarrow> Bitboard \<Rightarrow> Move list" where
  "generate_piece_moves piece pos side target =
     concat (map (\<lambda>i.
        let from = piece_list pos side piece i;
            b = piece_attacks_fn piece pos from AND target
        in for_each_square b (\<lambda>to. [make_move from to]))
      [0..<piece_count pos side piece])"

definition generate_king_moves :: "Position \<Rightarrow> Square \<Rightarrow> Bitboard \<Rightarrow> Move list" where
  "generate_king_moves pos from target =
     for_each_square (king_attacks from AND target) (\<lambda>to. [make_move from to])"

definition generate_castle_moves :: "Position \<Rightarrow> Color \<Rightarrow> Move list" where
  "generate_castle_moves pos us =
     (if can_castle pos us then
        (let them = opposite_color us;
             ksq = king_square pos us;
             lk = (if can_castle_kingside pos us then
                     (let rsq = initial_kr_square pos us;
                          g1 = relative_square us SQ_G1;
                          f1 = relative_square us SQ_F1;
                          illegal =
                            (list_ex (\<lambda>s. (s \<noteq> ksq \<and> s \<noteq> rsq \<and> square_is_occupied pos s)
                                        \<or> square_is_attacked pos s them) [min ksq g1..max ksq g1]
                             \<or> list_ex (\<lambda>s. s \<noteq> ksq \<and> s \<noteq> rsq \<and> square_is_occupied pos s)
                                  [min rsq f1..max rsq f1])
                      in if \<not> illegal then [make_castle_move ksq rsq] else [])
                   else []);
             lq = (if can_castle_queenside pos us then
                     (let rsq = initial_qr_square pos us;
                          c1 = relative_square us SQ_C1;
                          d1 = relative_square us SQ_D1;
                          illegal =
                            (list_ex (\<lambda>s. (s \<noteq> ksq \<and> s \<noteq> rsq \<and> square_is_occupied pos s)
                                        \<or> square_is_attacked pos s them) [min ksq c1..max ksq c1]
                             \<or> list_ex (\<lambda>s. s \<noteq> ksq \<and> s \<noteq> rsq \<and> square_is_occupied pos s)
                                  [min rsq d1..max rsq d1]
                             \<or> (square_file rsq = FILE_B
                                 \<and> (piece_on pos (relative_square us SQ_A1) = rook_of_color them
                                    \<or> piece_on pos (relative_square us SQ_A1) = queen_of_color them)))
                      in if \<not> illegal then [make_castle_move ksq rsq] else [])
                   else [])
         in lk @ lq)
      else [])"

definition generate_captures :: "Position \<Rightarrow> Move list" where
  "generate_captures pos =
     (let us = side_to_move pos;
          target = pieces_of_color pos (opposite_color us)
      in (if us = WHITE then generate_white_pawn_captures pos
          else generate_black_pawn_captures pos)
         @ concat (map (\<lambda>pce. generate_piece_moves pce pos us target)
                     [KNIGHT, BISHOP, ROOK, QUEEN])
         @ generate_king_moves pos (king_square pos us) target)"

definition generate_noncaptures :: "Position \<Rightarrow> Move list" where
  "generate_noncaptures pos =
     (let us = side_to_move pos;
          target = empty_squares pos
      in (if us = WHITE then generate_white_pawn_noncaptures pos
          else generate_black_pawn_noncaptures pos)
         @ concat (map (\<lambda>pce. generate_piece_moves pce pos us target)
                     [KNIGHT, BISHOP, ROOK, QUEEN])
         @ generate_king_moves pos (king_square pos us) target
         @ generate_castle_moves pos us)"

text \<open>
  \<^verbatim>\<open>generate_checks\<close>: the parameter \<open>dc\<close> is overwritten before its first use
  (\<^verbatim>\<open>dc = pos.discovered_check_candidates(us)\<close>). The pawn part of the function is
  kept in three pieces, in the order of the source: the discovered checks (single and
  double pushes), the direct checks by single pushes, the direct checks by double pushes.
\<close>

definition pawn_discovered_checks :: "Position \<Rightarrow> Bitboard \<Rightarrow> Move list" where
  "pawn_discovered_checks pos dc =
     (let us = side_to_move pos;
          ksq = king_square pos (opposite_color us);
          empty = empty_squares pos
      in if us = WHITE then
           (let b1 = pawns pos us AND NOT (file_bb ksq);
                b2 = push_bit 8 (b1 AND dc) AND NOT Rank8BB AND empty;
                l1 = for_each_square b2 (\<lambda>to. [make_move (to - DELTA_N) to]);
                b3 = push_bit 8 (b2 AND Rank3BB) AND empty;
                l2 = for_each_square b3 (\<lambda>to. [make_move (to - DELTA_N - DELTA_N) to])
            in l1 @ l2)
         else
           (let b1 = pawns pos us AND NOT (file_bb ksq);
                b2 = drop_bit 8 (b1 AND dc) AND NOT Rank1BB AND empty;
                l1 = for_each_square b2 (\<lambda>to. [make_move (to - DELTA_S) to]);
                b3 = drop_bit 8 (b2 AND Rank6BB) AND empty;
                l2 = for_each_square b3 (\<lambda>to. [make_move (to - DELTA_S - DELTA_S) to])
            in l1 @ l2))"

definition pawn_direct_single_checks :: "Position \<Rightarrow> Bitboard \<Rightarrow> Move list" where
  "pawn_direct_single_checks pos dc =
     (let us = side_to_move pos;
          ksq = king_square pos (opposite_color us);
          empty = empty_squares pos
      in if us = WHITE then
           (let b1 = pawns pos us AND NOT (file_bb ksq);
                b1 = b1 AND (NOT dc AND neighboring_files_bb ksq);
                b2 = push_bit 8 b1 AND empty;
                b3 = b2 AND black_pawn_attacks ksq
            in for_each_square b3 (\<lambda>to. [make_move (to - DELTA_N) to]))
         else
           (let b1 = pawns pos us AND NOT (file_bb ksq);
                b1 = b1 AND (NOT dc AND neighboring_files_bb ksq);
                b2 = drop_bit 8 b1 AND empty;
                b3 = b2 AND white_pawn_attacks ksq
            in for_each_square b3 (\<lambda>to. [make_move (to - DELTA_S) to])))"

definition pawn_direct_double_checks :: "Position \<Rightarrow> Bitboard \<Rightarrow> Move list" where
  "pawn_direct_double_checks pos dc =
     (let us = side_to_move pos;
          ksq = king_square pos (opposite_color us);
          empty = empty_squares pos
      in if us = WHITE then
           (let b1 = pawns pos us AND NOT (file_bb ksq);
                b1 = b1 AND (NOT dc AND neighboring_files_bb ksq);
                b2 = push_bit 8 b1 AND empty;
                b3 = push_bit 8 (b2 AND Rank3BB) AND empty AND black_pawn_attacks ksq
            in for_each_square b3 (\<lambda>to. [make_move (to - DELTA_N - DELTA_N) to]))
         else
           (let b1 = pawns pos us AND NOT (file_bb ksq);
                b1 = b1 AND (NOT dc AND neighboring_files_bb ksq);
                b2 = drop_bit 8 b1 AND empty;
                b3 = drop_bit 8 (b2 AND Rank6BB) AND empty AND black_pawn_attacks ksq
            in for_each_square b3 (\<lambda>to. [make_move (to - DELTA_S - DELTA_S) to])))"

definition generate_checks :: "Position \<Rightarrow> Bitboard \<Rightarrow> Move list" where
  "generate_checks pos dc0 =
     (let us = side_to_move pos;
          them = opposite_color us;
          ksq = king_square pos them;
          dc = discovered_check_candidates pos us;
          empty = empty_squares pos;
          lpawn = pawn_discovered_checks pos dc @ pawn_direct_single_checks pos dc
                  @ pawn_direct_double_checks pos dc;
          b1 = knights pos us;
          lknight =
            (if b1 \<noteq> 0 then
               for_each_square (b1 AND dc) (\<lambda>from.
                 for_each_square (knight_attacks from AND empty) (\<lambda>to. [make_move from to]))
               @ (let checkSqs = knight_attacks ksq AND empty
                  in for_each_square (b1 AND NOT dc) (\<lambda>from.
                       for_each_square (knight_attacks from AND checkSqs)
                         (\<lambda>to. [make_move from to])))
             else []);
          b1 = bishops pos us;
          lbishop =
            (if b1 \<noteq> 0 then
               for_each_square (b1 AND dc) (\<lambda>from.
                 for_each_square (bishop_attacks pos from AND empty) (\<lambda>to. [make_move from to]))
               @ (let checkSqs = bishop_attacks pos ksq AND empty
                  in for_each_square (b1 AND NOT dc) (\<lambda>from.
                       for_each_square (bishop_attacks pos from AND checkSqs)
                         (\<lambda>to. [make_move from to])))
             else []);
          b1 = rooks pos us;
          lrook =
            (if b1 \<noteq> 0 then
               for_each_square (b1 AND dc) (\<lambda>from.
                 for_each_square (rook_attacks pos from AND empty) (\<lambda>to. [make_move from to]))
               @ (let checkSqs = rook_attacks pos ksq AND empty
                  in for_each_square (b1 AND NOT dc) (\<lambda>from.
                       for_each_square (rook_attacks pos from AND checkSqs)
                         (\<lambda>to. [make_move from to])))
             else []);
          b1 = queens pos us;
          lqueen =
            (if b1 \<noteq> 0 then
               (let checkSqs = queen_attacks pos ksq AND empty
                in for_each_square b1 (\<lambda>from.
                     for_each_square (queen_attacks pos from AND checkSqs)
                       (\<lambda>to. [make_move from to])))
             else []);
          from = king_square pos us;
          lking =
            (if bit_is_set dc from then
               for_each_square (king_attacks from AND empty AND NOT (QueenPseudoAttacks ksq))
                 (\<lambda>to. [make_move from to])
             else [])
      in lpawn @ lknight @ lbishop @ lrook @ lqueen @ lking)"

text \<open>
  \<^verbatim>\<open>generate_evasions\<close>. The three parts of the function are kept apart: the king's
  own moves, the moves of other pieces against a single checker (captures of the checker
  and interpositions), and the en-passant captures of a checking pawn.
\<close>

definition king_evasion_safe :: "Position \<Rightarrow> Bitboard \<Rightarrow> Square \<Rightarrow> bool" where
  "king_evasion_safe pos b2 to \<longleftrightarrow>
     (let us = side_to_move pos; them = opposite_color us
      in (pawn_attacks us to AND pawns pos them) = EmptyBoardBB
         \<and> (knight_attacks to AND knights pos them) = EmptyBoardBB
         \<and> (king_attacks to AND kings pos them) = EmptyBoardBB
         \<and> (bishop_attacks_bb to b2 AND bishops_and_queens pos them) = EmptyBoardBB
         \<and> (rook_attacks_bb to b2 AND rooks_and_queens pos them) = EmptyBoardBB)"

definition generate_king_evasions :: "Position \<Rightarrow> Move list" where
  "generate_king_evasions pos =
     (let us = side_to_move pos;
          ksq = king_square pos us;
          b1 = king_attacks ksq AND NOT (pieces_of_color pos us);
          b2 = clear_bit (occupied_squares pos) ksq
      in for_each_square b1 (\<lambda>to.
           if king_evasion_safe pos b2 to then [make_move ksq to] else []))"

definition generate_checker_captures :: "Position \<Rightarrow> Square \<Rightarrow> Bitboard \<Rightarrow> Move list" where
  "generate_checker_captures pos checksq pinned =
     (let us = side_to_move pos;
          them = opposite_color us;
          b1 = pawn_attacks them checksq AND pawns pos us AND NOT pinned;
          lp = for_each_square b1 (\<lambda>from.
                 if relative_rank us checksq = RANK_8 then
                   [make_promotion_move from checksq QUEEN,
                    make_promotion_move from checksq ROOK,
                    make_promotion_move from checksq BISHOP,
                    make_promotion_move from checksq KNIGHT]
                 else [make_move from checksq]);
          b1 = knight_attacks checksq AND knights pos us AND NOT pinned;
          ln = for_each_square b1 (\<lambda>from. [make_move from checksq]);
          b1 = bishop_attacks pos checksq AND bishops_and_queens pos us AND NOT pinned;
          lb = for_each_square b1 (\<lambda>from. [make_move from checksq]);
          b1 = rook_attacks pos checksq AND rooks_and_queens pos us AND NOT pinned;
          lr = for_each_square b1 (\<lambda>from. [make_move from checksq])
      in lp @ ln @ lb @ lr)"

definition generate_blocking_evasions :: "Position \<Rightarrow> Square \<Rightarrow> Bitboard \<Rightarrow> Move list" where
  "generate_blocking_evasions pos checksq pinned =
     (let us = side_to_move pos;
          ksq = king_square pos us;
          blockSquares = squares_between checksq ksq;
          lpawn =
            (if us = WHITE then
               (let b1 = pawns pos WHITE AND NOT pinned;
                    b2 = push_bit 8 b1 AND blockSquares;
                    l1 = for_each_square b2 (\<lambda>to.
                           if square_rank to = RANK_8 then
                             [make_promotion_move (to - DELTA_N) to QUEEN,
                              make_promotion_move (to - DELTA_N) to ROOK,
                              make_promotion_move (to - DELTA_N) to BISHOP,
                              make_promotion_move (to - DELTA_N) to KNIGHT]
                           else [make_move (to - DELTA_N) to]);
                    b2 = push_bit 8 (push_bit 8 b1 AND empty_squares pos AND Rank3BB)
                           AND blockSquares;
                    l2 = for_each_square b2 (\<lambda>to. [make_move (to - DELTA_N - DELTA_N) to])
                in l1 @ l2)
             else
               (let b1 = pawns pos BLACK AND NOT pinned;
                    b2 = drop_bit 8 b1 AND blockSquares;
                    l1 = for_each_square b2 (\<lambda>to.
                           if square_rank to = RANK_1 then
                             [make_promotion_move (to - DELTA_S) to QUEEN,
                              make_promotion_move (to - DELTA_S) to ROOK,
                              make_promotion_move (to - DELTA_S) to BISHOP,
                              make_promotion_move (to - DELTA_S) to KNIGHT]
                           else [make_move (to - DELTA_S) to]);
                    b2 = drop_bit 8 (drop_bit 8 b1 AND empty_squares pos AND Rank6BB)
                           AND blockSquares;
                    l2 = for_each_square b2 (\<lambda>to. [make_move (to - DELTA_S - DELTA_S) to])
                in l1 @ l2));
          ln = for_each_square (knights pos us AND NOT pinned) (\<lambda>from.
                 for_each_square (knight_attacks from AND blockSquares)
                   (\<lambda>to. [make_move from to]));
          lb = for_each_square (bishops pos us AND NOT pinned) (\<lambda>from.
                 for_each_square (bishop_attacks pos from AND blockSquares)
                   (\<lambda>to. [make_move from to]));
          lr = for_each_square (rooks pos us AND NOT pinned) (\<lambda>from.
                 for_each_square (rook_attacks pos from AND blockSquares)
                   (\<lambda>to. [make_move from to]));
          lq = for_each_square (queens pos us AND NOT pinned) (\<lambda>from.
                 for_each_square (queen_attacks pos from AND blockSquares)
                   (\<lambda>to. [make_move from to]))
      in lpawn @ ln @ lb @ lr @ lq)"

definition ep_evasion_safe :: "Position \<Rightarrow> Square \<Rightarrow> Square \<Rightarrow> bool" where
  "ep_evasion_safe pos checksq from \<longleftrightarrow>
     (let us = side_to_move pos; them = opposite_color us; ksq = king_square pos us;
          b2 = clear_bit (clear_bit (occupied_squares pos) from) checksq
      in (bishop_attacks_bb ksq b2 AND bishops_and_queens pos them) = EmptyBoardBB
         \<and> (rook_attacks_bb ksq b2 AND rooks_and_queens pos them) = EmptyBoardBB)"

definition generate_ep_evasions :: "Position \<Rightarrow> Square \<Rightarrow> Bitboard \<Rightarrow> Move list" where
  "generate_ep_evasions pos checksq pinned =
     (let us = side_to_move pos;
          them = opposite_color us;
          to = ep_square pos;
          b1 = pawn_attacks them to AND pawns pos us;
          b1 = b1 AND NOT pinned
      in for_each_square b1 (\<lambda>from.
           if ep_evasion_safe pos checksq from then [make_ep_move from to] else []))"

definition generate_evasions :: "Position \<Rightarrow> Move list" where
  "generate_evasions pos =
     (let us = side_to_move pos;
          them = opposite_color us;
          chk = checkers pos;
          lking = generate_king_evasions pos;
          lother =
            (if chk AND (chk - 1) = 0 then
               (let checksq = first_1 chk;
                    pinned = pinned_pieces pos us;
                    lcapt = generate_checker_captures pos checksq pinned;
                    lblock = (if chk AND sliders pos \<noteq> 0
                              then generate_blocking_evasions pos checksq pinned else []);
                    lep = (if ep_square pos \<noteq> SQ_NONE \<and> chk AND pawns pos them \<noteq> 0
                           then generate_ep_evasions pos checksq pinned else [])
                in lcapt @ lblock @ lep)
             else [])
      in lking @ lother)"

text \<open>
  \<^verbatim>\<open>generate_legal_moves\<close>. The loop
  \<^verbatim>\<open>for (i = 0; i < n; i++) if (!legal(mlist[i])) mlist[i--] = mlist[--n];\<close>
  overwrites an illegal entry with the last one and looks at the same index again.
\<close>

function remove_illegal :: "(Move \<Rightarrow> bool) \<Rightarrow> Move list \<Rightarrow> nat \<Rightarrow> nat \<Rightarrow> Move list \<times> nat" where
  "remove_illegal legal mlist i n =
     (if i < n then
        (if \<not> legal (mlist ! i) then remove_illegal legal (mlist[i := mlist ! (n - 1)]) i (n - 1)
         else remove_illegal legal mlist (i + 1) n)
      else (mlist, n))"
  by pat_completeness auto
termination
  by (relation "measure (\<lambda>(legal, mlist, i, n). n - i)") auto

declare remove_illegal.simps [simp del]

definition generate_legal_moves :: "Position \<Rightarrow> Move list" where
  "generate_legal_moves pos =
     (if is_check pos then generate_evasions pos
      else
        (let mlist = generate_captures pos @ generate_noncaptures pos;
             n = length mlist;
             pinned = pinned_pieces pos (side_to_move pos)
         in case remove_illegal (\<lambda>m. move_is_legal pos m pinned) mlist 0 n of
              (mlist', n') \<Rightarrow> take n' mlist'))"

text \<open>
  \<^verbatim>\<open>generate_move_if_legal\<close>. The \<^verbatim>\<open>switch (to - from)\<close> of the pawn branch is the
  case distinction on the signed square delta.
\<close>

definition generate_move_if_legal :: "Position \<Rightarrow> Move \<Rightarrow> Bitboard \<Rightarrow> Move" where
  "generate_move_if_legal pos m pinned =
     (let us = side_to_move pos;
          them = opposite_color us;
          from = move_from m;
          pc = piece_on pos from;
          to = move_to m
      in if color_of_piece pc \<noteq> Some us then MOVE_NONE
         else if move_is_ep m then
           (if type_of_piece pc \<noteq> Some PAWN \<or> to \<noteq> ep_square pos then MOVE_NONE
            else if move_is_legal1 pos m then m else MOVE_NONE)
         else if move_is_short_castle m then
           (if type_of_piece pc \<noteq> Some KING \<or> \<not> can_castle_kingside pos us then MOVE_NONE
            else
              (let g1 = relative_square us SQ_G1;
                   f1 = relative_square us SQ_F1;
                   illegal =
                     (list_ex (\<lambda>s. (s \<noteq> from \<and> s \<noteq> to \<and> \<not> square_is_empty pos s)
                                 \<or> square_is_attacked pos s them) [min from g1..max from g1]
                      \<or> list_ex (\<lambda>s. s \<noteq> from \<and> s \<noteq> to \<and> \<not> square_is_empty pos s)
                           [min to f1..max to f1])
               in if \<not> illegal then m else MOVE_NONE))
         else if move_is_long_castle m then
           (if type_of_piece pc \<noteq> Some KING \<or> \<not> can_castle_queenside pos us then MOVE_NONE
            else
              (let c1 = relative_square us SQ_C1;
                   d1 = relative_square us SQ_D1;
                   illegal =
                     (list_ex (\<lambda>s. (s \<noteq> from \<and> s \<noteq> to \<and> \<not> square_is_empty pos s)
                                 \<or> square_is_attacked pos s them) [min from c1..max from c1]
                      \<or> list_ex (\<lambda>s. s \<noteq> from \<and> s \<noteq> to \<and> \<not> square_is_empty pos s)
                           [min to d1..max to d1]
                      \<or> (square_file to = FILE_B
                          \<and> (piece_on pos (to + DELTA_W) = rook_of_color them
                             \<or> piece_on pos (to + DELTA_W) = queen_of_color them)))
               in if \<not> illegal then m else MOVE_NONE))
         else if color_of_piece_on pos to = Some us then MOVE_NONE
         else if type_of_piece pc = Some PAWN then
           (if ((square_rank to = RANK_8 \<and> us = WHITE) \<or> (square_rank to = RANK_1 \<and> us \<noteq> WHITE))
               \<and> move_promotion m = None
            then MOVE_NONE
            else
              (let d = to - from
               in if d = DELTA_NW \<or> d = DELTA_NE \<or> d = DELTA_SW \<or> d = DELTA_SE then
                    (if color_of_piece_on pos to \<noteq> Some them then MOVE_NONE
                     else if move_is_legal1 pos m then m else MOVE_NONE)
                  else if d = DELTA_N \<or> d = DELTA_S then
                    (if \<not> square_is_empty pos to then MOVE_NONE
                     else if move_is_legal1 pos m then m else MOVE_NONE)
                  else if d = DELTA_NN then
                    (if square_rank to \<noteq> RANK_4 \<or> \<not> square_is_empty pos to
                        \<or> \<not> square_is_empty pos (from + DELTA_N)
                     then MOVE_NONE
                     else if move_is_legal1 pos m then m else MOVE_NONE)
                  else if d = DELTA_SS then
                    (if square_rank to \<noteq> RANK_5 \<or> \<not> square_is_empty pos to
                        \<or> \<not> square_is_empty pos (from + DELTA_S)
                     then MOVE_NONE
                     else if move_is_legal1 pos m then m else MOVE_NONE)
                  else MOVE_NONE))
         else if piece_attacks_square pos from to \<and> move_is_legal1 pos m
                 \<and> move_promotion m = None
              then m else MOVE_NONE)"

section \<open>Applying a move and well-formed positions\<close>

text \<open>
  Modelled from the spec: \<^verbatim>\<open>Position::do_move\<close> (not part of the sources), as far as the
  board, the side to move, the kings' squares, the en-passant square and the castling
  rights go. A castle moves the king to the g- or c-file and the rook to the f- or d-file;
  an en-passant capture removes the pawn behind the destination square.
\<close>

definition do_move :: "Position \<Rightarrow> Move \<Rightarrow> Position" where
  "do_move pos m =
     (let us = side_to_move pos; them = opposite_color us;
          from = move_from m; to = move_to m; pc = piece_on pos from
      in if move_is_castle m then
           (let kto = relative_square us (if to > from then SQ_G1 else SQ_C1);
                rto = relative_square us (if to > from then SQ_F1 else SQ_D1)
            in pos\<lparr>piece_on := ((piece_on pos)(from := EMPTY, to := EMPTY))
                              (kto := king_of_color us, rto := rook_of_color us),
                    side_to_move := them, ep_square := SQ_NONE,
                    king_square := (king_square pos)(us := kto),
                    can_castle_kingside := (can_castle_kingside pos)(us := False),
                    can_castle_queenside := (can_castle_queenside pos)(us := False)\<rparr>)
         else if move_is_ep m then
           pos\<lparr>piece_on := (piece_on pos)(from := EMPTY, to - pawn_push us := EMPTY, to := pc),
                side_to_move := them, ep_square := SQ_NONE\<rparr>
         else
           pos\<lparr>piece_on := (piece_on pos)(from := EMPTY,
                    to := (case move_promotion m of None \<Rightarrow> pc | Some p \<Rightarrow> Pc us p)),
                side_to_move := them,
                ep_square := (if pc = pawn_of_color us \<and> \<bar>to - from\<bar> = 16
                              then from + pawn_push us else SQ_NONE),
                king_square := (if from = king_square pos us then (king_square pos)(us := to)
                                else king_square pos),
                can_castle_kingside := (\<lambda>c. can_castle_kingside pos c
                    \<and> \<not> (c = us \<and> from = king_square pos us)
                    \<and> from \<noteq> initial_kr_square pos c \<and> to \<noteq> initial_kr_square pos c),
                can_castle_queenside := (\<lambda>c. can_castle_queenside pos c
                    \<and> \<not> (c = us \<and> from = king_square pos us)
                    \<and> from \<noteq> initial_qr_square pos c \<and> to \<noteq> initial_qr_square pos c)\<rparr>)"

text \<open>
  Modelled from the spec: \<^verbatim>\<open>Position::is_ok\<close> (not part of the sources), the invariants the
  generator consumes. Each side has exactly one king, on the square the position records;
  no pawn stands on the first or last rank; the side that has just moved is not in check;
  a castling right comes with king and rook on their squares; and the en-passant square is
  the square behind a pawn that has just made a double push: the enemy pawn stands in
  front of it, the square itself and the pawn's start square are empty, and in the position
  before the push (\<open>before_double_push\<close>) the side now to move was not in check.
\<close>

definition before_double_push :: "Position \<Rightarrow> Position" where
  "before_double_push pos =
     (let us = side_to_move pos; them = opposite_color us; ep = ep_square pos
      in pos\<lparr>piece_on := (piece_on pos)(ep - pawn_push us := EMPTY,
                                         ep + pawn_push us := pawn_of_color them),
              side_to_move := them, ep_square := SQ_NONE\<rparr>)"

definition ep_is_ok :: "Position \<Rightarrow> bool" where
  "ep_is_ok pos \<longleftrightarrow>
     (let us = side_to_move pos; them = opposite_color us; ep = ep_square pos
      in ep = SQ_NONE
         \<or> (square_is_ok ep \<and> relative_rank us ep = RANK_6
            \<and> piece_on pos (ep - pawn_push us) = pawn_of_color them
            \<and> piece_on pos ep = EMPTY
            \<and> piece_on pos (ep + pawn_push us) = EMPTY
            \<and> \<not> square_is_attacked (before_double_push pos) (king_square pos us) them))"

definition pos_is_ok :: "Position \<Rightarrow> bool" where
  "pos_is_ok pos \<longleftrightarrow>
     (let us = side_to_move pos; them = opposite_color us
      in square_is_ok (king_square pos WHITE) \<and> square_is_ok (king_square pos BLACK)
         \<and> list_all (\<lambda>s. (piece_on pos s = king_of_color WHITE) = (s = king_square pos WHITE)
                        \<and> (piece_on pos s = king_of_color BLACK) = (s = king_square pos BLACK)
                        \<and> (type_of_piece (piece_on pos s) = Some PAWN
                             \<longrightarrow> square_rank s \<noteq> RANK_1 \<and> square_rank s \<noteq> RANK_8))
              (map int [0..<64])
         \<and> \<not> square_is_attacked pos (king_square pos them) us
         \<and> ep_is_ok pos
         \<and> list_all (\<lambda>c.
               (can_castle_kingside pos c \<longrightarrow>
                  square_rank (king_square pos c) = relative_rank c RANK_1
                  \<and> king_square pos c < initial_kr_square pos c
                  \<and> initialKRFile pos \<le> FILE_H
                  \<and> piece_on pos (initial_kr_square pos c) = rook_of_color c)
               \<and> (can_castle_queenside pos c \<longrightarrow>
                  square_rank (king_square pos c) = relative_rank c RANK_1
                  \<and> initial_qr_square pos c < king_square pos c
                  \<and> FILE_A \<le> initialQRFile pos
                  \<and> piece_on pos (initial_qr_square pos c) = rook_of_color c))
              [WHITE, BLACK])"

text \<open>
  Notions used to state and prove the properties: the squares of a line between two
  aligned squares, and what it means for the piece on \<open>e\<close> to attack \<open>s\<close>.
\<close>

definition line_len :: "Square \<Rightarrow> Square \<Rightarrow> int" where
  "line_len a b = max (file_distance a b) (rank_distance a b)"

definition aligned :: "Square \<Rightarrow> Square \<Rightarrow> bool" where
  "aligned a b \<longleftrightarrow> on_rook_line a b \<or> on_bishop_line a b"

definition attacks_from :: "Position \<Rightarrow> Bitboard \<Rightarrow> Color \<Rightarrow> Square \<Rightarrow> Square \<Rightarrow> bool" where
  "attacks_from pos occ c e s \<longleftrightarrow>
     (piece_on pos e = Pc c PAWN \<and> e \<in> bb_squares (pawn_attacks (opposite_color c) s))
     \<or> (piece_on pos e = Pc c KNIGHT \<and> e \<in> bb_squares (knight_attacks s))
     \<or> (piece_on pos e = Pc c KING \<and> e \<in> bb_squares (king_attacks s))
     \<or> ((piece_on pos e = Pc c BISHOP \<or> piece_on pos e = Pc c QUEEN)
         \<and> e \<in> bb_squares (bishop_attacks_bb s occ))
     \<or> ((piece_on pos e = Pc c ROOK \<or> piece_on pos e = Pc c QUEEN)
         \<and> e \<in> bb_squares (rook_attacks_bb s occ))"

definition nonslider_attack :: "Position \<Rightarrow> Color \<Rightarrow> Square \<Rightarrow> Square \<Rightarrow> bool" where
  "nonslider_attack pos c e s \<longleftrightarrow>
     (piece_on pos e = Pc c PAWN \<and> e \<in> bb_squares (pawn_attacks (opposite_color c) s))
     \<or> (piece_on pos e = Pc c KNIGHT \<and> e \<in> bb_squares (knight_attacks s))
     \<or> (piece_on pos e = Pc c KING \<and> e \<in> bb_squares (king_attacks s))"

definition slider_attack :: "Position \<Rightarrow> Bitboard \<Rightarrow> Color \<Rightarrow> Square \<Rightarrow> Square \<Rightarrow> bool" where
  "slider_attack pos occ c e s \<longleftrightarrow>
     ((piece_on pos e = Pc c BISHOP \<or> piece_on pos e = Pc c QUEEN)
         \<and> e \<in> bb_squares (bishop_attacks_bb s occ))
     \<or> ((piece_on pos e = Pc c ROOK \<or> piece_on pos e = Pc c QUEEN)
         \<and> e \<in> bb_squares (rook_attacks_bb s occ))"

section \<open>Concrete positions\<close>

text \<open>
  Positions used to run the generators on concrete inputs. Squares are numbered
  a1 = 0, ..., h1 = 7, a2 = 8, ..., h8 = 63.
\<close>

definition empty_position :: Position where
  "empty_position = \<lparr>piece_on = (\<lambda>s. EMPTY), side_to_move = WHITE, ep_square = SQ_NONE,
     king_square = (\<lambda>c. SQ_NONE), can_castle_kingside = (\<lambda>c. False),
     can_castle_queenside = (\<lambda>c. False), initialKRFile = 7, initialQRFile = 0\<rparr>"

text \<open>White: Ke2; Black: Ka8, Re5; White to move and in check (\<^verbatim>\<open>k7/8/8/4r3/8/8/4K3/8 w\<close>).\<close>

definition pos_rook_check :: Position where
  "pos_rook_check = empty_position\<lparr>
     piece_on := (\<lambda>s. EMPTY)(12 := Pc WHITE KING, 56 := Pc BLACK KING, 36 := Pc BLACK ROOK),
     king_square := (\<lambda>c. if c = WHITE then 12 else 56)\<rparr>"

text \<open>White: Ke1, Pe2; Black: Ka8; White to move (\<^verbatim>\<open>k7/8/8/8/8/8/4P3/4K3 w\<close>).\<close>

definition pos_quiet :: Position where
  "pos_quiet = empty_position\<lparr>
     piece_on := (\<lambda>s. EMPTY)(4 := Pc WHITE KING, 12 := Pc WHITE PAWN, 56 := Pc BLACK KING),
     king_square := (\<lambda>c. if c = WHITE then 4 else 56)\<rparr>"

text \<open>White: Ke1, Pe3; Black: Ka8; White to move (\<^verbatim>\<open>k7/8/8/8/8/4P3/8/4K3 w\<close>).\<close>

definition pos_pawn_back :: Position where
  "pos_pawn_back = empty_position\<lparr>
     piece_on := (\<lambda>s. EMPTY)(4 := Pc WHITE KING, 20 := Pc WHITE PAWN, 56 := Pc BLACK KING),
     king_square := (\<lambda>c. if c = WHITE then 4 else 56)\<rparr>"

text \<open>White: Kg6; Black: Ka8, Pf7; Black to move (\<^verbatim>\<open>k7/5p2/6K1/8/8/8/8/8 b\<close>).\<close>

definition pos_black_pawn_f7_king_g6 :: Position where
  "pos_black_pawn_f7_king_g6 = empty_position\<lparr>
     piece_on := (\<lambda>s. EMPTY)(53 := Pc BLACK PAWN, 46 := Pc WHITE KING, 56 := Pc BLACK KING),
     side_to_move := BLACK,
     king_square := (\<lambda>c. if c = WHITE then 46 else 56)\<rparr>"

text \<open>White: Ke4; Black: Ka8, Pf7; Black to move (\<^verbatim>\<open>k7/5p2/8/8/4K3/8/8/8 b\<close>).\<close>

definition pos_black_pawn_f7_king_e4 :: Position where
  "pos_black_pawn_f7_king_e4 = empty_position\<lparr>
     piece_on := (\<lambda>s. EMPTY)(53 := Pc BLACK PAWN, 28 := Pc WHITE KING, 56 := Pc BLACK KING),
     side_to_move := BLACK,
     king_square := (\<lambda>c. if c = WHITE then 28 else 56)\<rparr>"

text \<open>
  White: Kd4, Pd5; Black: Kh8, Pc5; White to move, the black pawn has just played c7-c5
  and gives check; the en-passant square is c6 (\<^verbatim>\<open>7k/8/8/2pP4/3K4/8/8/8 w - c6\<close>).
\<close>

definition pos_ep_check :: Position where
  "pos_ep_check = empty_position\<lparr>
     piece_on := (\<lambda>s. EMPTY)(27 := Pc WHITE KING, 35 := Pc WHITE PAWN, 34 := Pc BLACK PAWN,
                   63 := Pc BLACK KING),
     ep_square := 42,
     king_square := (\<lambda>c. if c = WHITE then 27 else 63)\<rparr>"

text \<open>
  White: Ke1, Rb1 with the queenside castling right, the queenside rook on the b-file;
  Black: Ke8; White to move (\<^verbatim>\<open>4k3/8/8/8/8/8/8/1R2K3 w Q\<close>).
\<close>

definition pos_castle_b :: Position where
  "pos_castle_b = empty_position\<lparr>
     piece_on := (\<lambda>s. EMPTY)(4 := Pc WHITE KING, 1 := Pc WHITE ROOK, 60 := Pc BLACK KING),
     king_square := (\<lambda>c. if c = WHITE then 4 else 60),
     can_castle_queenside := (\<lambda>c. c = WHITE),
     initialQRFile := FILE_B\<rparr>"

text \<open>The same position with a black queen on a1.\<close>

definition pos_castle_b_queen_a1 :: Position where
  "pos_castle_b_queen_a1 = pos_castle_b\<lparr>
     piece_on := (piece_on pos_castle_b)(0 := Pc BLACK QUEEN)\<rparr>"

text \<open>
  White: Kc4, Pe5; Black: Kh8, Pd5, Pf5; White to move, en-passant square f6. The pawn on
  d5 gives check, but the en-passant square says that the f-pawn has just moved: the
  position cannot arise, since White would have been in check before the push.
\<close>

definition pos_ep_other_checker :: Position where
  "pos_ep_other_checker = empty_position\<lparr>
     piece_on := (\<lambda>s. EMPTY)(26 := Pc WHITE KING, 36 := Pc WHITE PAWN, 35 := Pc BLACK PAWN,
                   37 := Pc BLACK PAWN, 63 := Pc BLACK KING),
     ep_square := 45,
     king_square := (\<lambda>c. if c = WHITE then 26 else 63)\<rparr>"

text \<open>White: Ka1, Pe2; Black: Kf5; White to move (\<^verbatim>\<open>8/8/8/5k2/8/8/4P3/K7 w\<close>).\<close>

definition pos_white_pawn_e2_king_f5 :: Position where
  "pos_white_pawn_e2_king_f5 = empty_position\<lparr>
     piece_on := (\<lambda>s. EMPTY)(0 := Pc WHITE KING, 12 := Pc WHITE PAWN, 37 := Pc BLACK KING),
     king_square := (\<lambda>c. if c = WHITE then 0 else 37)\<rparr>"

text \<open>\<open>moved_by_non_king pos m\<close>: the piece on the from-square of \<open>m\<close> belongs to the side to
  move and is not its king.\<close>

definition moved_by_non_king :: "Position \<Rightarrow> Move \<Rightarrow> bool" where
  "moved_by_non_king pos m \<longleftrightarrow>
     (\<exists>t. t \<noteq> KING \<and> piece_on pos (move_from m) = Pc (side_to_move pos) t)"

section \<open>Bitboard loops\<close>

text \<open>
  \<open>b AND (b - 1)\<close> clears the lowest set bit, so the loop over a bitboard visits exactly
  its squares, each once, in ascending order.
\<close>

lemma nat_and_pred_bit:
  "0 < k \<Longrightarrow> bit (k AND (k - 1)) n \<longleftrightarrow> bit k n \<and> (\<exists>m<n. bit k m)" for k :: nat
proof (induction n arbitrary: k)
  case 0
  then show ?case by (cases "even k") (auto simp: bit_0 even_and_iff)
next
  case (Suc n)
  have step: "bit (k AND (k - 1)) (Suc n) \<longleftrightarrow> bit (k div 2 AND ((k - 1) div 2)) n"
    by (simp add: bit_Suc bit_and_iff and_nat_rec[of k])
  show ?case
  proof (cases "even k")
    case True
    then obtain j where j: "k = 2 * j" by (elim evenE)
    with Suc.prems have j0: "0 < j" by simp
    have km: "(k - 1) div 2 = j - 1" using j j0 by auto
    have ex: "(\<exists>m<Suc n. bit k m) \<longleftrightarrow> (\<exists>m<n. bit j m)"
    proof
      assume "\<exists>m<Suc n. bit k m"
      then obtain m where m: "m < Suc n" "bit k m" by blast
      with True have "m \<noteq> 0" by (cases m) (auto simp: bit_0)
      then obtain m' where "m = Suc m'" by (cases m) auto
      with m j show "\<exists>m<n. bit j m" by (auto simp: bit_Suc)
    next
      assume "\<exists>m<n. bit j m"
      then obtain m where "m < n" "bit j m" by blast
      then have "Suc m < Suc n" "bit k (Suc m)" using j by (auto simp: bit_Suc)
      then show "\<exists>m<Suc n. bit k m" by blast
    qed
    have "bit (k AND (k - 1)) (Suc n) \<longleftrightarrow> bit (j AND (j - 1)) n"
      using step km j by simp
    also have "\<dots> \<longleftrightarrow> bit j n \<and> (\<exists>m<n. bit j m)" using Suc.IH[OF j0] .
    finally show ?thesis using ex j by (simp add: bit_Suc)
  next
    case False
    then have b0: "bit k 0" by (simp add: bit_0)
    from False have "(k - 1) div 2 = k div 2" by (auto elim!: oddE)
    then have "bit (k AND (k - 1)) (Suc n) \<longleftrightarrow> bit k (Suc n)"
      using step by (simp add: bit_Suc)
    then show ?thesis using b0 by auto
  qed
qed

lemma word_and_pred_bit:
  fixes b :: Bitboard
  assumes "b \<noteq> 0"
  shows "bit (b AND (b - 1)) n \<longleftrightarrow> bit b n \<and> (\<exists>m<n. bit b m)"
proof -
  have u: "unat (b - 1) = unat b - 1" using assms by (simp add: unat_minus_one)
  have pos: "0 < unat b" using assms by (simp add: unat_gt_0)
  have "bit (b AND (b - 1)) n \<longleftrightarrow> bit (unat b AND unat (b - 1)) n"
    by (auto simp add: bit_and_iff bit_unsigned_iff dest: bit_imp_le_length)
  also have "\<dots> \<longleftrightarrow> bit (unat b) n \<and> (\<exists>m<n. bit (unat b) m)"
    unfolding u using nat_and_pred_bit[OF pos] .
  finally show ?thesis by (auto simp add: bit_unsigned_iff dest: bit_imp_le_length)
qed

lemma takeWhile_first:
  assumes "\<exists>x\<in>set xs. \<not> Q x"
  shows "length (takeWhile Q xs) < length xs"
    and "\<not> Q (xs ! length (takeWhile Q xs))"
    and "\<forall>m < length (takeWhile Q xs). Q (xs ! m)"
proof -
  have "dropWhile Q xs \<noteq> []" using assms by (simp add: dropWhile_eq_Nil_conv)
  then have "0 < length (dropWhile Q xs)" by simp
  moreover have "length (takeWhile Q xs @ dropWhile Q xs) = length xs"
    by (simp only: takeWhile_dropWhile_id)
  then have "length (takeWhile Q xs) + length (dropWhile Q xs) = length xs"
    by (simp only: length_append)
  ultimately show lt: "length (takeWhile Q xs) < length xs" by linarith
  show "\<not> Q (xs ! length (takeWhile Q xs))" using nth_length_takeWhile[OF lt] .
  show "\<forall>m < length (takeWhile Q xs). Q (xs ! m)"
  proof (intro allI impI)
    fix m assume m: "m < length (takeWhile Q xs)"
    then have "takeWhile Q xs ! m \<in> set (takeWhile Q xs)" by (rule nth_mem)
    then have "Q (takeWhile Q xs ! m)" by (rule set_takeWhileD[THEN conjunct2])
    moreover have "takeWhile Q xs ! m = xs ! m" using m by (rule takeWhile_nth)
    ultimately show "Q (xs ! m)" by simp
  qed
qed

lemma takeWhile_upt_first:
  assumes "i < n" "P i"
  shows "length (takeWhile (\<lambda>i. \<not> P i) [0..<n]) < n"
    and "P (length (takeWhile (\<lambda>i. \<not> P i) [0..<n]))"
    and "\<forall>m < length (takeWhile (\<lambda>i. \<not> P i) [0..<n]). \<not> P m"
proof -
  let ?Q = "\<lambda>i. \<not> P i"
  let ?k = "length (takeWhile ?Q [0..<n])"
  have ex: "\<exists>x\<in>set [0..<n]. \<not> ?Q x" using assms by auto
  have lt: "?k < n" using takeWhile_first(1)[OF ex] by simp
  then show "?k < n" .
  have "\<not> ?Q ([0..<n] ! ?k)" using takeWhile_first(2)[OF ex] .
  then show "P ?k" using lt by simp
  show "\<forall>m < ?k. \<not> P m"
  proof (intro allI impI)
    fix m assume m: "m < ?k"
    then have "?Q ([0..<n] ! m)" using takeWhile_first(3)[OF ex] by blast
    then show "\<not> P m" using m lt by simp
  qed
qed

lemma first_1_props:
  fixes b :: Bitboard
  assumes "b \<noteq> 0"
  shows "bit b (nat (first_1 b))" "first_1 b < 64" "0 \<le> first_1 b" "\<forall>m < nat (first_1 b). \<not> bit b m"
proof -
  from assms obtain i where i: "bit b i" by (auto simp: bit_eq_iff)
  then have i64: "i < 64" by (auto dest: bit_imp_le_length)
  note tw = takeWhile_upt_first[of i 64 "bit b", OF i64 i]
  show "bit b (nat (first_1 b))" using tw(2) by (simp add: first_1_def)
  show "first_1 b < 64" using tw(1) by (simp add: first_1_def)
  show "0 \<le> first_1 b" by (simp add: first_1_def)
  show "\<forall>m < nat (first_1 b). \<not> bit b m" using tw(3) by (simp add: first_1_def)
qed

lemma filter_upt_least:
  assumes "k < n" "P k" "\<forall>m<k. \<not> P m"
  shows "filter P [0..<n] = k # filter (\<lambda>i. P i \<and> k < i) [0..<n]"
proof -
  have split: "[0..<n] = [0..<k] @ k # [Suc k..<n]"
    using assms(1) by (metis less_imp_le_nat upt_add_eq_append upt_conv_Cons le0 le_add_diff_inverse)
  have a: "filter P [0..<k] = []" using assms(3) by (auto simp: filter_empty_conv)
  have b: "filter (\<lambda>i. P i \<and> k < i) [0..<k] = []" by (auto simp: filter_empty_conv)
  have c: "filter (\<lambda>i. P i \<and> k < i) [Suc k..<n] = filter P [Suc k..<n]"
    by (rule filter_cong) auto
  show ?thesis
    by (subst (1 2) split) (simp add: a b c assms(2))
qed

lemma pop_squares_eq: "pop_squares b = map int (filter (bit b) [0..<64])"
proof (induction b rule: pop_squares.induct)
  case (1 b)
  show ?case
  proof (cases "b = 0")
    case True
    then show ?thesis by (simp add: pop_squares.simps)
  next
    case False
    let ?k = "nat (first_1 b)"
    note fp = first_1_props[OF False]
    have IH: "pop_squares (b AND (b - 1)) = map int (filter (bit (b AND (b - 1))) [0..<64])"
      using 1[OF False, of "first_1 b" "b AND (b - 1)"] by (simp add: pop_1st_bit_def)
    have bits: "bit (b AND (b - 1)) n \<longleftrightarrow> bit b n \<and> ?k < n" for n
    proof -
      have "(\<exists>m<n. bit b m) \<longleftrightarrow> ?k < n" if "bit b n"
        using that fp(1,4) by (metis not_less_iff_gr_or_eq)
      then show ?thesis using word_and_pred_bit[OF False, of n] by blast
    qed
    have k64: "?k < 64" using fp(2,3) by simp
    have "filter (bit b) [0..<64] = ?k # filter (\<lambda>i. bit b i \<and> ?k < i) [0..<64]"
      using filter_upt_least[of ?k 64 "bit b"] k64 fp(1,4) by blast
    then have "map int (filter (bit b) [0..<64]) = first_1 b # map int (filter (bit (b AND (b - 1))) [0..<64])"
      using fp(3) bits by (simp cong: filter_cong)
    then show ?thesis using False IH by (simp add: pop_squares.simps[of b] pop_1st_bit_def)
  qed
qed

lemma set_pop_squares: "set (pop_squares b) = bb_squares b"
  unfolding pop_squares_eq bb_squares_def
  apply (auto simp: image_iff)
  subgoal for s by (rule exI[of _ "nat s"]) auto
  done

lemma distinct_pop_squares: "distinct (pop_squares b)"
  unfolding pop_squares_eq by (simp add: distinct_map inj_on_def)


lemma bit_bb_of [simp]: "bit (bb_of P) n \<longleftrightarrow> n < 64 \<and> P (int n)"
  by (auto simp: bb_of_def bit_horner_sum_bit_word_iff)

lemma in_bb_squares_iff: "s \<in> bb_squares b \<longleftrightarrow> 0 \<le> s \<and> s < 64 \<and> bit b (nat s)"
  by (simp add: bb_squares_def)

lemma bb_squares_bb_of [simp]: "s \<in> bb_squares (bb_of P) \<longleftrightarrow> 0 \<le> s \<and> s < 64 \<and> P s"
  by (auto simp: bb_squares_def)

lemma bb_squares_and [simp]: "s \<in> bb_squares (a AND b) \<longleftrightarrow> s \<in> bb_squares a \<and> s \<in> bb_squares b"
  by (auto simp: bb_squares_def bit_and_iff)

lemma bb_squares_or [simp]: "s \<in> bb_squares (a OR b) \<longleftrightarrow> s \<in> bb_squares a \<or> s \<in> bb_squares b"
  by (auto simp: bb_squares_def bit_or_iff)

lemma bb_squares_not [simp]: "s \<in> bb_squares (NOT a) \<longleftrightarrow> 0 \<le> s \<and> s < 64 \<and> s \<notin> bb_squares a"
  by (auto simp: bb_squares_def bit_not_iff)

lemma bb_squares_zero [simp]: "bb_squares 0 = {}"
  by (simp add: bb_squares_def)

lemma bb_squares_push_bit: "s \<in> bb_squares (push_bit n a) \<longleftrightarrow> s < 64 \<and> s - int n \<in> bb_squares a"
  by (auto simp: bb_squares_def bit_push_bit_iff nat_diff_distrib nat_le_iff)

lemma bb_squares_drop_bit: "s \<in> bb_squares (drop_bit n a) \<longleftrightarrow> 0 \<le> s \<and> s + int n \<in> bb_squares a"
  by (auto simp: bb_squares_def bit_drop_bit_eq nat_add_distrib add.commute dest: bit_imp_le_length)

lemma bb_eq_zero_iff: "b = 0 \<longleftrightarrow> bb_squares b = {}" for b :: Bitboard
proof
  assume "b = 0" then show "bb_squares b = {}" by simp
next
  assume e: "bb_squares b = {}"
  show "b = 0"
  proof (rule bit_word_eqI)
    fix n assume "n < LENGTH(64)"
    then have "int n \<in> bb_squares b \<longleftrightarrow> bit b n" by (simp add: bb_squares_def)
    with e show "bit b n \<longleftrightarrow> bit (0 :: Bitboard) n" by simp
  qed
qed

lemma set_for_each_square [simp]:
  "set (for_each_square b body) = (\<Union>s \<in> bb_squares b. set (body s))"
  by (simp add: for_each_square_def set_pop_squares)

section \<open>Membership in the bitboards of the position\<close>

lemma bb_squares_pieces [simp]:
  "s \<in> bb_squares (pieces_of_color_and_type pos c t) \<longleftrightarrow> 0 \<le> s \<and> s < 64 \<and> piece_on pos s = Pc c t"
  by (simp add: pieces_of_color_and_type_def)

lemma bb_squares_pieces_of_color [simp]:
  "s \<in> bb_squares (pieces_of_color pos c) \<longleftrightarrow> 0 \<le> s \<and> s < 64 \<and> color_of_piece (piece_on pos s) = Some c"
  by (simp add: pieces_of_color_def)

lemma bb_squares_occupied [simp]:
  "s \<in> bb_squares (occupied_squares pos) \<longleftrightarrow> 0 \<le> s \<and> s < 64 \<and> piece_on pos s \<noteq> EMPTY"
  by (simp add: occupied_squares_def)

lemma bb_squares_empty [simp]:
  "s \<in> bb_squares (empty_squares pos) \<longleftrightarrow> 0 \<le> s \<and> s < 64 \<and> piece_on pos s = EMPTY"
  by (auto simp: empty_squares_def)

lemma color_neq_WHITE [simp]: "c \<noteq> WHITE \<longleftrightarrow> c = BLACK"
  by (cases c) auto

lemma color_neq_BLACK [simp]: "c \<noteq> BLACK \<longleftrightarrow> c = WHITE"
  by (cases c) auto

lemmas piece_bb_defs = pawns_def knights_def bishops_def rooks_def queens_def kings_def
  bishops_and_queens_def rooks_and_queens_def

lemma checker_captures_non_king:
  "m \<in> set (generate_checker_captures pos checksq pinned) \<Longrightarrow> moved_by_non_king pos m"
  unfolding generate_checker_captures_def Let_def moved_by_non_king_def
  by (auto simp: piece_bb_defs make_move_def make_promotion_move_def split: if_splits)

lemma blocking_evasions_non_king:
  "m \<in> set (generate_blocking_evasions pos checksq pinned) \<Longrightarrow> moved_by_non_king pos m"
  unfolding generate_blocking_evasions_def Let_def moved_by_non_king_def
  by (auto simp: piece_bb_defs make_move_def make_promotion_move_def bb_squares_push_bit
      bb_squares_drop_bit add.commute split: if_splits)

lemma ep_evasions_is_ep:
  "m \<in> set (generate_ep_evasions pos checksq pinned) \<Longrightarrow> move_is_ep m"
  unfolding generate_ep_evasions_def Let_def
  by (auto simp: make_ep_move_def split: if_splits)

lemma make_move_eq_iff [simp]: "make_move a b = make_move c d \<longleftrightarrow> a = c \<and> b = d"
  by (auto simp: make_move_def)

lemma make_move_fields [simp]:
  "move_from (make_move a b) = a" "move_to (make_move a b) = b"
  "move_promotion (make_move a b) = None" "\<not> move_is_ep (make_move a b)"
  "\<not> move_is_castle (make_move a b)"
  by (simp_all add: make_move_def)

section \<open>The legal-move generator\<close>

text \<open>
  The compaction loop keeps, as a multiset, exactly the legal entries of the first \<open>n\<close>
  entries of the buffer.
\<close>

lemma mset_take_swap_last:
  assumes "i < n" "n \<le> length xs"
  shows "add_mset (xs ! i) (mset (take (n - 1) (xs[i := xs ! (n - 1)]))) = mset (take n xs)"
proof -
  have n1: "n - 1 < length xs" using assms by simp
  have tk: "take n xs = take (n - 1) xs @ [xs ! (n - 1)]"
    using take_Suc_conv_app_nth[OF n1] assms by simp
  show ?thesis
  proof (cases "i = n - 1")
    case True
    then have "take (n - 1) (xs[i := xs ! (n - 1)]) = take (n - 1) xs" by simp
    then show ?thesis using True tk by simp
  next
    case False
    then have i: "i < n - 1" using assms by simp
    then have il: "i < length (take (n - 1) xs)" using n1 by simp
    have "take (n - 1) (xs[i := xs ! (n - 1)]) = (take (n - 1) xs)[i := xs ! (n - 1)]"
      by (simp add: take_update_swap)
    then have "mset (take (n - 1) (xs[i := xs ! (n - 1)]))
        = add_mset (xs ! (n - 1)) (mset (take (n - 1) xs) - {#take (n - 1) xs ! i#})"
      using mset_update[OF il] by simp
    moreover have "take (n - 1) xs ! i = xs ! i" using i by simp
    moreover have "xs ! i \<in># mset (take (n - 1) xs)"
      using il \<open>take (n - 1) xs ! i = xs ! i\<close> by (metis nth_mem_mset)
    ultimately show ?thesis using tk by simp
  qed
qed

lemma remove_illegal_mset:
  assumes "i \<le> n" "n \<le> length mlist" "\<forall>j<i. legal (mlist ! j)"
    "remove_illegal legal mlist i n = (mlist', n')"
  shows "mset (take n' mlist') = mset (filter legal (take n mlist)) \<and> n' \<le> n \<and> length mlist' = length mlist"
  using assms
proof (induction legal mlist i n rule: remove_illegal.induct)
  case (1 legal mlist i n)
  show ?case
  proof (cases "i < n")
    case False
    then have "remove_illegal legal mlist i n = (mlist, n)"
      by (simp add: remove_illegal.simps[of legal mlist i n])
    with False "1.prems" have eq: "i = n" "mlist' = mlist" "n' = n"
      by auto
    have "\<forall>x \<in> set (take n mlist). legal x"
      using "1.prems"(2,3) eq by (auto simp: in_set_conv_nth)
    then have "filter legal (take n mlist) = take n mlist" by (simp add: filter_id_conv)
    then show ?thesis using eq by simp
  next
    case True
    show ?thesis
    proof (cases "legal (mlist ! i)")
      case False
      let ?ml = "mlist[i := mlist ! (n - 1)]"
      have r: "remove_illegal legal ?ml i (n - 1) = (mlist', n')"
        using "1.prems"(4) True False by (simp add: remove_illegal.simps[of legal mlist i n])
      have pre: "i \<le> n - 1" "n - 1 \<le> length ?ml" "\<forall>j<i. legal (?ml ! j)"
        using True "1.prems" by auto
      have IH: "mset (take n' mlist') = mset (filter legal (take (n - 1) ?ml)) \<and> n' \<le> n - 1
          \<and> length mlist' = length ?ml"
        using "1.IH"(1)[OF True _ pre r] False by simp
      have "mset (filter legal (take n mlist))
          = filter_mset legal (add_mset (mlist ! i) (mset (take (n - 1) ?ml)))"
        using mset_take_swap_last[OF True "1.prems"(2)] by (metis mset_filter)
      also have "\<dots> = mset (filter legal (take (n - 1) ?ml))" using False by simp
      finally have "mset (filter legal (take n mlist)) = mset (filter legal (take (n - 1) ?ml))" .
      moreover have "n' \<le> n" using IH by linarith
      ultimately show ?thesis using IH by simp
    next
      case L: True
      have r: "remove_illegal legal mlist (i + 1) n = (mlist', n')"
        using "1.prems"(4) True L by (simp add: remove_illegal.simps[of legal mlist i n])
      have pre: "i + 1 \<le> n" "\<forall>j<i + 1. legal (mlist ! j)"
        using True L "1.prems"(3) by (auto simp: less_Suc_eq)
      show ?thesis using "1.IH"(2)[OF True _ pre(1) "1.prems"(2) pre(2) r] L by simp
    qed
  qed
qed

text \<open>
  Claim C1. \<^verbatim>\<open>generate_legal_moves\<close> returns exactly the evasions when the side to move
  is in check; otherwise it returns the captures followed by the non-captures, compacted
  in place: the moves kept are precisely those for which \<^verbatim>\<open>move_is_legal(m, pinned)\<close>
  holds, each as often as it was generated (the compaction does not keep their order).
\<close>

theorem generate_legal_moves_spec:
  "(is_check pos \<longrightarrow> generate_legal_moves pos = generate_evasions pos)
   \<and> (\<not> is_check pos \<longrightarrow>
        mset (generate_legal_moves pos)
        = mset (filter (\<lambda>m. move_is_legal pos m (pinned_pieces pos (side_to_move pos)))
                 (generate_captures pos @ generate_noncaptures pos)))"
proof (intro conjI impI)
  assume "is_check pos"
  then show "generate_legal_moves pos = generate_evasions pos"
    by (simp add: generate_legal_moves_def)
next
  assume nc: "\<not> is_check pos"
  let ?ml = "generate_captures pos @ generate_noncaptures pos"
  let ?legal = "\<lambda>m. move_is_legal pos m (pinned_pieces pos (side_to_move pos))"
  obtain ml' n' where r: "remove_illegal ?legal ?ml 0 (length ?ml) = (ml', n')"
    by (cases "remove_illegal ?legal ?ml 0 (length ?ml)") auto
  have "mset (take n' ml') = mset (filter ?legal (take (length ?ml) ?ml))"
    using remove_illegal_mset[OF _ _ _ r] by simp
  then show "mset (generate_legal_moves pos) = mset (filter ?legal ?ml)"
    using nc r by (simp add: generate_legal_moves_def Let_def)
qed

theorem generate_legal_moves_spec_witness:
  "is_check pos_rook_check
   \<and> generate_legal_moves pos_rook_check = generate_evasions pos_rook_check
   \<and> \<not> is_check pos_quiet
   \<and> mset (generate_legal_moves pos_quiet)
     = mset (filter (\<lambda>m. move_is_legal pos_quiet m (pinned_pieces pos_quiet (side_to_move pos_quiet)))
              (generate_captures pos_quiet @ generate_noncaptures pos_quiet))"
proof -
  have a: "is_check pos_rook_check" by code_simp
  have b: "\<not> is_check pos_quiet" by code_simp
  have c: "generate_legal_moves pos_rook_check = generate_evasions pos_rook_check"
    using generate_legal_moves_spec[THEN conjunct1, THEN mp, OF a] .
  note d = generate_legal_moves_spec[THEN conjunct2, THEN mp, OF b]
  show ?thesis using a b c d by (intro conjI)
qed

section \<open>The check generator\<close>

text \<open>
  Claim C10. The result of \<^verbatim>\<open>generate_checks(pos, mlist, dc)\<close> does not depend on the
  argument \<open>dc\<close>: any two bitboards give the same move list and the same count, since the
  function overwrites the parameter with the discovered-check candidates of the position.
\<close>

theorem generate_checks_dc_independent:
  "generate_checks pos dc1 = generate_checks pos dc2
   \<and> length (generate_checks pos dc1) = length (generate_checks pos dc2)"
  by (simp add: generate_checks_def)

theorem generate_checks_dc_independent_witness:
  "generate_checks pos_quiet 0 = generate_checks pos_quiet (- 1)
   \<and> length (generate_checks pos_quiet 0) = length (generate_checks pos_quiet (- 1))"
  using generate_checks_dc_independent[of pos_quiet 0 "- 1"] by simp



section \<open>The evasion generator\<close>

text \<open>
  The parts of \<^verbatim>\<open>generate_evasions\<close> that move another piece than the king never emit
  a normal move from the king's square, and only the en-passant part emits en-passant
  moves.
\<close>

lemma king_move_not_in_other_parts:
  assumes "piece_on pos (king_square pos (side_to_move pos)) = king_of_color (side_to_move pos)"
  shows "make_move (king_square pos (side_to_move pos)) to
           \<notin> set (generate_checker_captures pos checksq pinned)"
    and "make_move (king_square pos (side_to_move pos)) to
           \<notin> set (generate_blocking_evasions pos checksq pinned)"
    and "make_move (king_square pos (side_to_move pos)) to
           \<notin> set (generate_ep_evasions pos checksq pinned)"
proof -
  have nk: "\<not> moved_by_non_king pos (make_move (king_square pos (side_to_move pos)) to)"
    using assms by (simp add: moved_by_non_king_def king_of_color_def)
  show "make_move (king_square pos (side_to_move pos)) to
           \<notin> set (generate_checker_captures pos checksq pinned)"
    using nk checker_captures_non_king by blast
  show "make_move (king_square pos (side_to_move pos)) to
           \<notin> set (generate_blocking_evasions pos checksq pinned)"
    using nk blocking_evasions_non_king by blast
  show "make_move (king_square pos (side_to_move pos)) to
           \<notin> set (generate_ep_evasions pos checksq pinned)"
    using ep_evasions_is_ep[of "make_move (king_square pos (side_to_move pos)) to"] by auto
qed

lemma king_move_in_evasions_iff:
  assumes "piece_on pos (king_square pos (side_to_move pos)) = king_of_color (side_to_move pos)"
  shows "make_move (king_square pos (side_to_move pos)) to \<in> set (generate_evasions pos)
     \<longleftrightarrow> make_move (king_square pos (side_to_move pos)) to \<in> set (generate_king_evasions pos)"
  unfolding generate_evasions_def Let_def
  using king_move_not_in_other_parts[OF assms] by auto

text \<open>
  Claim C8. In check, \<^verbatim>\<open>generate_evasions\<close> emits the king move from \<open>ksq\<close> to \<open>to\<close> if and
  only if \<open>to\<close> is in \<open>king_attacks(ksq) & ~own_pieces\<close> and is not attacked by the opponent
  when the king is removed from the occupancy: no enemy pawn attacks \<open>to\<close>, no enemy
  knight or king reaches it, and no bishop/queen ray nor rook/queen ray from \<open>to\<close> over
  \<open>occupied \ {ksq}\<close> hits an enemy bishop or queen, respectively rook or queen.
\<close>

theorem king_evasions_iff:
  assumes "is_check pos"
    and "us = side_to_move pos" and "them = opposite_color us" and "ksq = king_square pos us"
    and "piece_on pos ksq = king_of_color us"
    and "b2 = clear_bit (occupied_squares pos) ksq"
  shows "make_move ksq to \<in> set (generate_evasions pos) \<longleftrightarrow>
     to \<in> bb_squares (king_attacks ksq AND NOT (pieces_of_color pos us))
     \<and> pawn_attacks us to AND pawns pos them = EmptyBoardBB
     \<and> knight_attacks to AND knights pos them = EmptyBoardBB
     \<and> king_attacks to AND kings pos them = EmptyBoardBB
     \<and> bishop_attacks_bb to b2 AND bishops_and_queens pos them = EmptyBoardBB
     \<and> rook_attacks_bb to b2 AND rooks_and_queens pos them = EmptyBoardBB"
proof -
  have k: "piece_on pos (king_square pos (side_to_move pos)) = king_of_color (side_to_move pos)"
    using assms by simp
  have "make_move ksq to \<in> set (generate_evasions pos)
      \<longleftrightarrow> make_move ksq to \<in> set (generate_king_evasions pos)"
    using king_move_in_evasions_iff[OF k, of to] assms by simp
  also have "\<dots> \<longleftrightarrow> to \<in> bb_squares (king_attacks ksq AND NOT (pieces_of_color pos us))
      \<and> king_evasion_safe pos b2 to"
    using assms(2,4,6) unfolding generate_king_evasions_def Let_def by auto
  finally show ?thesis
    using assms(2,3) by (simp add: king_evasion_safe_def Let_def)
qed

theorem king_evasions_iff_witness:
  "is_check pos_rook_check
   \<and> piece_on pos_rook_check (king_square pos_rook_check (side_to_move pos_rook_check))
       = king_of_color (side_to_move pos_rook_check)
   \<and> make_move (king_square pos_rook_check (side_to_move pos_rook_check)) 3
       \<in> set (generate_evasions pos_rook_check)
   \<and> 3 \<in> bb_squares (king_attacks (king_square pos_rook_check (side_to_move pos_rook_check))
                        AND NOT (pieces_of_color pos_rook_check (side_to_move pos_rook_check)))
   \<and> rook_attacks_bb 3 (clear_bit (occupied_squares pos_rook_check)
                           (king_square pos_rook_check (side_to_move pos_rook_check)))
       AND rooks_and_queens pos_rook_check (opposite_color (side_to_move pos_rook_check))
       = EmptyBoardBB"
proof -
  have a: "is_check pos_rook_check" by code_simp
  have k: "piece_on pos_rook_check (king_square pos_rook_check (side_to_move pos_rook_check))
       = king_of_color (side_to_move pos_rook_check)" by code_simp
  have l: "make_move (king_square pos_rook_check (side_to_move pos_rook_check)) 3
       \<in> set (generate_evasions pos_rook_check)" by code_simp
  note r = king_evasions_iff[OF a refl refl refl k refl, THEN iffD1, OF l]
  show ?thesis using a k l r by blast
qed

text \<open>
  In the same position the king may not step back along the file of the checking rook:
  e1 is attacked once the king has left e2.
\<close>

lemma king_evasion_along_ray_rejected:
  "make_move 12 4 \<notin> set (generate_evasions pos_rook_check)"
  by code_simp

text \<open>A bitboard with exactly one square passes the test \<^verbatim>\<open>!(b & (b - 1))\<close>.\<close>

lemma in_bb_squares_nat: "n < 64 \<Longrightarrow> int n \<in> bb_squares b \<longleftrightarrow> bit b n"
  by (simp add: bb_squares_def)

lemma single_bit_board:
  fixes b :: Bitboard
  assumes "bb_squares b = {s}"
  shows "b \<noteq> 0" and "first_1 b = s" and "b AND (b - 1) = 0"
proof -
  show nz: "b \<noteq> 0" using assms by (auto simp: bb_eq_zero_iff)
  have "first_1 b \<in> bb_squares b"
    using first_1_props[OF nz] by (simp add: bb_squares_def)
  then show "first_1 b = s" using assms by simp
  show "b AND (b - 1) = 0"
  proof (rule bit_word_eqI)
    fix n assume n: "n < LENGTH(64)"
    have "\<not> (bit b n \<and> (\<exists>m<n. bit b m))"
    proof
      assume h: "bit b n \<and> (\<exists>m<n. bit b m)"
      then obtain m where m: "m < n" "bit b m" by blast
      have "int n \<in> bb_squares b" using h n by (simp add: in_bb_squares_nat)
      moreover have "int m \<in> bb_squares b" using m n by (simp add: in_bb_squares_nat)
      ultimately have "int n = int m" using assms by simp
      then show False using m(1) by simp
    qed
    then show "bit (b AND (b - 1)) n \<longleftrightarrow> bit (0 :: Bitboard) n"
      using word_and_pred_bit[OF nz, of n] by simp
  qed
qed

lemma make_ep_move_eq_iff [simp]: "make_ep_move a b = make_ep_move c d \<longleftrightarrow> a = c \<and> b = d"
  by (auto simp: make_ep_move_def)

lemma make_ep_move_fields [simp]:
  "move_from (make_ep_move a b) = a" "move_to (make_ep_move a b) = b"
  "move_promotion (make_ep_move a b) = None" "move_is_ep (make_ep_move a b)"
  "\<not> move_is_castle (make_ep_move a b)"
  by (simp_all add: make_ep_move_def)

lemma make_promotion_move_fields [simp]:
  "move_from (make_promotion_move a b p) = a" "move_to (make_promotion_move a b p) = b"
  "move_promotion (make_promotion_move a b p) = Some p" "\<not> move_is_ep (make_promotion_move a b p)"
  "\<not> move_is_castle (make_promotion_move a b p)"
  by (simp_all add: make_promotion_move_def)

lemma king_evasions_not_ep:
  "m \<in> set (generate_king_evasions pos) \<Longrightarrow> \<not> move_is_ep m"
  unfolding generate_king_evasions_def Let_def by (auto split: if_splits)

lemma checker_captures_not_ep:
  "m \<in> set (generate_checker_captures pos checksq pinned) \<Longrightarrow> \<not> move_is_ep m"
  unfolding generate_checker_captures_def Let_def by (auto split: if_splits)

lemma blocking_evasions_not_ep:
  "m \<in> set (generate_blocking_evasions pos checksq pinned) \<Longrightarrow> \<not> move_is_ep m"
  unfolding generate_blocking_evasions_def Let_def by (auto split: if_splits)

text \<open>
  Claim C9. In check by exactly one checker, with an en-passant square set and the checker
  an enemy pawn, \<^verbatim>\<open>generate_evasions\<close> emits the en-passant capture by \<open>from\<close> if and only
  if \<open>from\<close> is a non-pinned own pawn attacking the en-passant square and, with the squares
  of the capturing pawn and of the checker removed from the occupancy, no bishop/queen ray
  and no rook/queen ray from the own king's square reaches an enemy bishop or queen,
  respectively rook or queen.
\<close>

theorem ep_evasions_iff:
  assumes "bb_squares (checkers pos) = {checksq}"
    and "ep_square pos \<noteq> SQ_NONE"
    and "us = side_to_move pos" and "them = opposite_color us" and "ksq = king_square pos us"
    and "piece_on pos checksq = pawn_of_color them"
    and "pinned = pinned_pieces pos us"
    and "b2 = clear_bit (clear_bit (occupied_squares pos) from) checksq"
  shows "make_ep_move from (ep_square pos) \<in> set (generate_evasions pos) \<longleftrightarrow>
     from \<in> bb_squares (pawn_attacks them (ep_square pos) AND pawns pos us AND NOT pinned)
     \<and> bishop_attacks_bb ksq b2 AND bishops_and_queens pos them = EmptyBoardBB
     \<and> rook_attacks_bb ksq b2 AND rooks_and_queens pos them = EmptyBoardBB"
proof -
  let ?m = "make_ep_move from (ep_square pos)"
  note sb = single_bit_board[OF assms(1)]
  have csq: "checksq \<in> bb_squares (checkers pos)" using assms(1) by simp
  then have "checksq \<in> bb_squares (checkers pos AND pawns pos them)"
    using assms(6) by (simp add: pawns_def pawn_of_color_def in_bb_squares_iff[of _ "checkers pos"])
  then have pw: "checkers pos AND pawns pos them \<noteq> 0"
    by (auto simp: bb_eq_zero_iff)
  have n1: "?m \<notin> set (generate_king_evasions pos)"
    using king_evasions_not_ep[of ?m pos] by auto
  have n2: "?m \<notin> set (generate_checker_captures pos checksq pinned)"
    using checker_captures_not_ep[of ?m pos] by auto
  have n3: "?m \<notin> set (generate_blocking_evasions pos checksq pinned)"
    using blocking_evasions_not_ep[of ?m pos] by auto
  have "?m \<in> set (generate_evasions pos) \<longleftrightarrow> ?m \<in> set (generate_ep_evasions pos checksq pinned)"
    unfolding generate_evasions_def Let_def
    using sb pw n1 n2 n3 assms(2,3,4,7) by auto
  also have "\<dots> \<longleftrightarrow> from \<in> bb_squares (pawn_attacks them (ep_square pos) AND pawns pos us AND NOT pinned)
      \<and> ep_evasion_safe pos checksq from"
    unfolding generate_ep_evasions_def Let_def using assms(3,4) by auto
  finally show ?thesis
    using assms(3,4,5,8) by (simp add: ep_evasion_safe_def Let_def)
qed

theorem ep_evasions_iff_witness:
  "bb_squares (checkers pos_ep_check) = {34}
   \<and> ep_square pos_ep_check \<noteq> SQ_NONE
   \<and> piece_on pos_ep_check 34 = pawn_of_color (opposite_color (side_to_move pos_ep_check))
   \<and> make_ep_move 35 (ep_square pos_ep_check) \<in> set (generate_evasions pos_ep_check)
   \<and> 35 \<in> bb_squares (pawn_attacks (opposite_color (side_to_move pos_ep_check))
                          (ep_square pos_ep_check)
                        AND pawns pos_ep_check (side_to_move pos_ep_check)
                        AND NOT (pinned_pieces pos_ep_check (side_to_move pos_ep_check)))"
proof -
  have "pop_squares (checkers pos_ep_check) = [34]" by code_simp
  then have c: "bb_squares (checkers pos_ep_check) = {34}"
    using set_pop_squares[of "checkers pos_ep_check"] by simp
  have e: "ep_square pos_ep_check \<noteq> SQ_NONE" by code_simp
  have p: "piece_on pos_ep_check 34 = pawn_of_color (opposite_color (side_to_move pos_ep_check))"
    by code_simp
  have l: "make_ep_move 35 (ep_square pos_ep_check) \<in> set (generate_evasions pos_ep_check)"
    by code_simp
  note r = ep_evasions_iff[OF c e refl refl refl p refl refl, THEN iffD1, OF l]
  show ?thesis using c e p l r by blast
qed

section \<open>Castling\<close>

lemma make_castle_move_fields [simp]:
  "move_from (make_castle_move a b) = a" "move_to (make_castle_move a b) = b"
  "move_promotion (make_castle_move a b) = None" "\<not> move_is_ep (make_castle_move a b)"
  "move_is_castle (make_castle_move a b)"
  by (simp_all add: make_castle_move_def)

lemma make_castle_move_eq_iff [simp]:
  "make_castle_move a b = make_castle_move c d \<longleftrightarrow> a = c \<and> b = d"
  by (auto simp: make_castle_move_def)

lemma make_castle_move_not_none [simp]:
  "make_castle_move a b \<noteq> MOVE_NONE" "MOVE_NONE \<noteq> make_castle_move a b"
  by (simp_all add: make_castle_move_def MOVE_NONE_def)

lemma upto_1_3: "[1..3] = [1, 2, (3::int)]"
  by (simp add: upto.simps)

lemma upto_57_59: "[57..59] = [57, 58, (59::int)]"
  by (simp add: upto.simps)

lemma queenside_castle_emitted:
  assumes "initialQRFile pos = FILE_B"
    and "piece_on pos (king_square pos us) = king_of_color us"
    and "can_castle_kingside pos us \<longrightarrow> king_square pos us < initial_kr_square pos us"
    and "initial_qr_square pos us < king_square pos us"
    and "make_castle_move (king_square pos us) (initial_qr_square pos us)
           \<in> set (generate_castle_moves pos us)"
  shows "piece_on pos (initial_qr_square pos us + DELTA_W) \<noteq> rook_of_color (opposite_color us)
     \<and> piece_on pos (initial_qr_square pos us + DELTA_W) \<noteq> queen_of_color (opposite_color us)
     \<and> piece_on pos (relative_square us SQ_D1 + DELTA_W) \<noteq> rook_of_color (opposite_color us)
     \<and> piece_on pos (relative_square us SQ_D1 + DELTA_W) \<noteq> queen_of_color (opposite_color us)"
proof (cases us)
  case WHITE
  have rsq: "initial_qr_square pos WHITE = 1"
    using assms(1) by (simp add: initial_qr_square_def relative_square_def make_square_def)
  show ?thesis
    using assms(2-5) unfolding WHITE rsq generate_castle_moves_def Let_def can_castle_def
    by (auto simp: relative_square_def square_file_def square_rank_def make_square_def
        rook_of_color_def queen_of_color_def king_of_color_def square_is_occupied_def upto_1_3
        split: if_splits)
next
  case BLACK
  have rsq: "initial_qr_square pos BLACK = 57"
    using assms(1) by (simp add: initial_qr_square_def relative_square_def make_square_def
        square_file_def square_rank_def)
  show ?thesis
    using assms(2-5) unfolding BLACK rsq generate_castle_moves_def Let_def can_castle_def
    by (auto simp: relative_square_def square_file_def square_rank_def make_square_def
        rook_of_color_def queen_of_color_def king_of_color_def square_is_occupied_def upto_57_59
        split: if_splits)
qed

lemma queenside_castle_accepted:
  assumes "initialQRFile pos = FILE_B"
    and "us = side_to_move pos"
    and "piece_on pos (king_square pos us) = king_of_color us"
    and "initial_qr_square pos us < king_square pos us"
    and "generate_move_if_legal pos (make_castle_move (king_square pos us) (initial_qr_square pos us)) pinned
         = make_castle_move (king_square pos us) (initial_qr_square pos us)"
  shows "piece_on pos (initial_qr_square pos us + DELTA_W) \<noteq> rook_of_color (opposite_color us)
     \<and> piece_on pos (initial_qr_square pos us + DELTA_W) \<noteq> queen_of_color (opposite_color us)
     \<and> piece_on pos (relative_square us SQ_D1 + DELTA_W) \<noteq> rook_of_color (opposite_color us)
     \<and> piece_on pos (relative_square us SQ_D1 + DELTA_W) \<noteq> queen_of_color (opposite_color us)"
proof (cases us)
  case WHITE
  have rsq: "initial_qr_square pos WHITE = 1"
    using assms(1) by (simp add: initial_qr_square_def relative_square_def make_square_def)
  have stm: "side_to_move pos = WHITE" using assms(2) WHITE by simp
  show ?thesis
    using assms(3-5) unfolding WHITE rsq generate_move_if_legal_def Let_def stm
    by (auto simp: relative_square_def square_file_def square_rank_def make_square_def
        rook_of_color_def queen_of_color_def king_of_color_def square_is_empty_def upto_1_3
        move_is_short_castle_def move_is_long_castle_def
        split: if_splits)
next
  case BLACK
  have rsq: "initial_qr_square pos BLACK = 57"
    using assms(1) by (simp add: initial_qr_square_def relative_square_def make_square_def
        square_file_def square_rank_def)
  have stm: "side_to_move pos = BLACK" using assms(2) BLACK by simp
  show ?thesis
    using assms(3-5) unfolding BLACK rsq generate_move_if_legal_def Let_def stm
    by (auto simp: relative_square_def square_file_def square_rank_def make_square_def
        rook_of_color_def queen_of_color_def king_of_color_def square_is_empty_def upto_57_59
        move_is_short_castle_def move_is_long_castle_def
        split: if_splits)
qed

text \<open>
  Claim C7. With the queenside castling right and the queenside rook on the b-file, the
  queenside castle move is emitted by \<^verbatim>\<open>generate_castle_moves\<close>, and accepted by
  \<^verbatim>\<open>generate_move_if_legal\<close>, only if the square one file left of the rook does not
  hold an enemy rook or queen. The code tests the square left of the rook's own square
  (a1 or a8, \<^verbatim>\<open>to + DELTA_W\<close> for the castle move king-takes-rook); the square left of
  the square where the rook lands (c1 or c8) holds no enemy piece either, since it has to
  be empty or the king's. Both are stated.
\<close>

theorem queenside_corner_rule:
  assumes "can_castle_queenside pos us"
    and "initialQRFile pos = FILE_B"
    and "piece_on pos (king_square pos us) = king_of_color us"
    and "can_castle_kingside pos us \<longrightarrow> king_square pos us < initial_kr_square pos us"
    and "initial_qr_square pos us < king_square pos us"
    and "m = make_castle_move (king_square pos us) (initial_qr_square pos us)"
    and "m \<in> set (generate_castle_moves pos us)
         \<or> (us = side_to_move pos \<and> generate_move_if_legal pos m pinned = m)"
  shows "piece_on pos (initial_qr_square pos us + DELTA_W) \<noteq> rook_of_color (opposite_color us)
     \<and> piece_on pos (initial_qr_square pos us + DELTA_W) \<noteq> queen_of_color (opposite_color us)
     \<and> piece_on pos (relative_square us SQ_D1 + DELTA_W) \<noteq> rook_of_color (opposite_color us)
     \<and> piece_on pos (relative_square us SQ_D1 + DELTA_W) \<noteq> queen_of_color (opposite_color us)"
  using assms(7)
proof
  assume "m \<in> set (generate_castle_moves pos us)"
  then have "make_castle_move (king_square pos us) (initial_qr_square pos us)
      \<in> set (generate_castle_moves pos us)" using assms(6) by simp
  then show ?thesis using queenside_castle_emitted[OF assms(2,3,4,5)] by blast
next
  assume h: "us = side_to_move pos \<and> generate_move_if_legal pos m pinned = m"
  then have u: "us = side_to_move pos" by (rule conjunct1)
  from h have "generate_move_if_legal pos m pinned = m" by (rule conjunct2)
  then have g: "generate_move_if_legal pos
      (make_castle_move (king_square pos us) (initial_qr_square pos us)) pinned
      = make_castle_move (king_square pos us) (initial_qr_square pos us)"
    unfolding assms(6) .
  show ?thesis using queenside_castle_accepted[OF assms(2) u assms(3,5) g] .
qed

theorem queenside_corner_rule_witness:
  "can_castle_queenside pos_castle_b WHITE
   \<and> initialQRFile pos_castle_b = FILE_B
   \<and> piece_on pos_castle_b (king_square pos_castle_b WHITE) = king_of_color WHITE
   \<and> initial_qr_square pos_castle_b WHITE < king_square pos_castle_b WHITE
   \<and> make_castle_move (king_square pos_castle_b WHITE) (initial_qr_square pos_castle_b WHITE)
       \<in> set (generate_castle_moves pos_castle_b WHITE)
   \<and> piece_on pos_castle_b (initial_qr_square pos_castle_b WHITE + DELTA_W)
       \<noteq> queen_of_color (opposite_color WHITE)
   \<and> piece_on pos_castle_b (relative_square WHITE SQ_D1 + DELTA_W)
       \<noteq> queen_of_color (opposite_color WHITE)"
proof -
  have a: "can_castle_queenside pos_castle_b WHITE" by code_simp
  have b: "initialQRFile pos_castle_b = FILE_B" by code_simp
  have c: "piece_on pos_castle_b (king_square pos_castle_b WHITE) = king_of_color WHITE"
    by code_simp
  have d: "can_castle_kingside pos_castle_b WHITE
      \<longrightarrow> king_square pos_castle_b WHITE < initial_kr_square pos_castle_b WHITE" by code_simp
  have e: "initial_qr_square pos_castle_b WHITE < king_square pos_castle_b WHITE" by code_simp
  have f: "make_castle_move (king_square pos_castle_b WHITE) (initial_qr_square pos_castle_b WHITE)
       \<in> set (generate_castle_moves pos_castle_b WHITE)" by code_simp
  note r = queenside_corner_rule[OF a b c d e refl disjI1, OF f]
  show ?thesis using a b c e f r by blast
qed

text \<open>With a black queen on a1 the castle move is neither emitted nor accepted.\<close>

lemma corner_rule_rejects_queen_on_a1:
  "generate_castle_moves pos_castle_b_queen_a1 WHITE = []
   \<and> generate_move_if_legal pos_castle_b_queen_a1 (make_castle_move 4 1) 0 = MOVE_NONE"
  by code_simp

section \<open>The legality probe on pawn moves\<close>

text \<open>
  Claim C6 (fails on the code). A normal pawn move that carries a promotion flag although
  its destination is not on the last rank is returned by \<^verbatim>\<open>generate_move_if_legal\<close>:
  with White Ke1, Pe2 against Black Ka8, the move e2-e3 flagged as a queen promotion comes
  back unchanged, although the position is not in check, the from-square holds a white
  pawn and e3 is on the third rank. Only the converse test (last rank without promotion
  flag) is made in the pawn branch.
\<close>

theorem promotion_flag_off_last_rank_accepted:
  "\<not> is_check pos_quiet
   \<and> piece_on pos_quiet 12 = pawn_of_color (side_to_move pos_quiet)
   \<and> move_is_ok (make_promotion_move 12 20 QUEEN)
   \<and> move_promotion (make_promotion_move 12 20 QUEEN) \<noteq> None
   \<and> square_rank (move_to (make_promotion_move 12 20 QUEEN)) \<noteq> RANK_8
   \<and> generate_move_if_legal pos_quiet (make_promotion_move 12 20 QUEEN)
        (pinned_pieces pos_quiet (side_to_move pos_quiet))
      = make_promotion_move 12 20 QUEEN
   \<and> make_promotion_move 12 20 QUEEN \<noteq> MOVE_NONE"
  by code_simp

theorem promotion_flag_off_last_rank_accepted_witness:
  "generate_move_if_legal pos_quiet (make_promotion_move 12 20 QUEEN)
     (pinned_pieces pos_quiet (side_to_move pos_quiet)) \<noteq> MOVE_NONE"
proof -
  note t = promotion_flag_off_last_rank_accepted
  have "generate_move_if_legal pos_quiet (make_promotion_move 12 20 QUEEN)
        (pinned_pieces pos_quiet (side_to_move pos_quiet))
      = make_promotion_move 12 20 QUEEN" using t by (elim conjE)
  moreover have "make_promotion_move 12 20 QUEEN \<noteq> MOVE_NONE" using t by (elim conjE)
  ultimately show ?thesis by simp
qed

text \<open>
  Claim C4 (fails on the code). \<^verbatim>\<open>generate_move_if_legal\<close> returns moves that
  \<^verbatim>\<open>generate_legal_moves\<close> does not contain: with White Ke1, Pe3 against Black Ka8 the
  backward pawn move e3-e2 is returned unchanged (the pawn branch accepts the delta
  \<^verbatim>\<open>DELTA_S\<close> for a white pawn), and it is not in the list of legal moves.
\<close>

theorem backward_pawn_move_accepted:
  "\<not> is_check pos_pawn_back
   \<and> move_is_ok (make_move 20 12)
   \<and> generate_move_if_legal pos_pawn_back (make_move 20 12)
        (pinned_pieces pos_pawn_back (side_to_move pos_pawn_back))
      = make_move 20 12
   \<and> make_move 20 12 \<noteq> MOVE_NONE
   \<and> make_move 20 12 \<notin> set (generate_legal_moves pos_pawn_back)"
  by code_simp

theorem backward_pawn_move_accepted_witness:
  "generate_move_if_legal pos_pawn_back (make_move 20 12)
     (pinned_pieces pos_pawn_back (side_to_move pos_pawn_back))
   \<notin> set (generate_legal_moves pos_pawn_back)"
proof -
  note t = backward_pawn_move_accepted
  have "generate_move_if_legal pos_pawn_back (make_move 20 12)
        (pinned_pieces pos_pawn_back (side_to_move pos_pawn_back))
      = make_move 20 12" using t by (elim conjE)
  moreover have "make_move 20 12 \<notin> set (generate_legal_moves pos_pawn_back)"
    using t by (elim conjE)
  ultimately show ?thesis by simp
qed

section \<open>Lines between squares\<close>

lemma sq_decomp: "a = 8 * square_rank a + square_file a"
  by (simp add: square_rank_def square_file_def)

lemma file_range: "0 \<le> square_file a" "square_file a < 8"
  by (simp_all add: square_file_def)

lemma line_end:
  assumes "on_rook_line a b \<or> on_bishop_line a b"
  shows "b = a + line_len a b * line_step a b" and "1 \<le> line_len a b"
proof -
  define df where "df = square_file b - square_file a"
  define dr where "dr = square_rank b - square_rank a"
  have ba: "b - a = 8 * dr + df"
    using sq_decomp[of a] sq_decomp[of b] by (simp add: df_def dr_def)
  have fd: "file_distance a b = \<bar>df\<bar>" by (simp add: file_distance_def df_def)
  have rd: "rank_distance a b = \<bar>dr\<bar>" by (simp add: rank_distance_def dr_def)
  have st: "line_step a b = 8 * sgn dr + sgn df" by (simp add: line_step_def df_def dr_def)
  have ne: "df \<noteq> 0 \<or> dr \<noteq> 0"
    using assms ba by (auto simp: on_rook_line_def on_bishop_line_def)
  have cases: "(df = 0 \<and> dr \<noteq> 0) \<or> (dr = 0 \<and> df \<noteq> 0) \<or> (\<bar>df\<bar> = \<bar>dr\<bar> \<and> df \<noteq> 0)"
    using assms ne unfolding on_rook_line_def on_bishop_line_def fd rd
    by (auto simp: df_def dr_def)
  have "line_len a b * line_step a b = 8 * dr + df"
    using cases unfolding line_len_def fd rd st
    by (auto simp: algebra_simps abs_if sgn_if split: if_splits)
  then show "b = a + line_len a b * line_step a b" using ba by simp
  show "1 \<le> line_len a b" using cases unfolding line_len_def fd rd by auto
qed

lemma aligned_sym: "aligned a b \<longleftrightarrow> aligned b a"
  by (auto simp: aligned_def on_rook_line_def on_bishop_line_def file_distance_def
      rank_distance_def)

lemma line_len_sym: "line_len a b = line_len b a"
  by (simp add: line_len_def file_distance_def rank_distance_def abs_minus_commute)

lemma line_step_sym: "line_step b a = - line_step a b"
proof -
  have "sgn (x - y) = - sgn (y - x)" for x y :: int by (simp add: sgn_if)
  then show ?thesis unfolding line_step_def
    by (metis (no_types) add.inverse_distrib_swap add.commute mult_minus_right)
qed

lemma set_between_squares:
  "set (between_squares a b) =
     (if aligned a b then {a + k * line_step a b | k. 1 \<le> k \<and> k < line_len a b} else {})"
proof (cases "aligned a b")
  case False
  then show ?thesis by (simp add: between_squares_def aligned_def)
next
  case True
  have "set (map (\<lambda>k. a + int k * line_step a b) [1..<nat (line_len a b)])
      = {a + k * line_step a b | k. 1 \<le> k \<and> k < line_len a b}" (is "?L = ?R")
  proof
    show "?L \<subseteq> ?R"
    proof
      fix s assume "s \<in> ?L"
      then obtain k where k: "1 \<le> k" "k < nat (line_len a b)" "s = a + int k * line_step a b"
        by auto
      then have "1 \<le> int k \<and> int k < line_len a b" by linarith
      then show "s \<in> ?R" using k(3) by blast
    qed
    show "?R \<subseteq> ?L"
    proof
      fix s assume "s \<in> ?R"
      then obtain k where k: "1 \<le> k" "k < line_len a b" "s = a + k * line_step a b" by blast
      then have "nat k \<in> set [1..<nat (line_len a b)]" by auto
      moreover have "s = a + int (nat k) * line_step a b" using k by simp
      ultimately show "s \<in> ?L" by (metis (no_types, lifting) image_eqI set_map)
    qed
  qed
  then show ?thesis using True
    by (simp add: between_squares_def aligned_def line_len_def)
qed

lemma between_squares_sym: "set (between_squares a b) = set (between_squares b a)"
proof (cases "aligned a b")
  case False
  then show ?thesis using aligned_sym[of a b] by (simp add: set_between_squares)
next
  case True
  then have T': "aligned b a" using aligned_sym by blast
  have e: "b = a + line_len a b * line_step a b"
    using line_end(1)[of a b] True by (simp add: aligned_def)
  have sub: "{x + k * line_step x y | k. 1 \<le> k \<and> k < line_len x y}
      \<subseteq> {y + k * line_step y x | k. 1 \<le> k \<and> k < line_len y x}"
    if ex: "y = x + line_len x y * line_step x y" for x y
  proof
    fix s assume "s \<in> {x + k * line_step x y | k. 1 \<le> k \<and> k < line_len x y}"
    then obtain k where k: "1 \<le> k" "k < line_len x y" "s = x + k * line_step x y" by blast
    let ?j = "line_len x y - k"
    have "1 \<le> ?j \<and> ?j < line_len y x" using k line_len_sym[of x y] by simp
    moreover have "s = y + ?j * line_step y x"
    proof -
      have "y + ?j * line_step y x = x + line_len x y * line_step x y - ?j * line_step x y"
        using ex by (simp add: line_step_sym[of x y])
      also have "\<dots> = x + k * line_step x y" by (simp add: algebra_simps)
      finally show ?thesis using k(3) by simp
    qed
    ultimately show "s \<in> {y + k * line_step y x | k. 1 \<le> k \<and> k < line_len y x}" by blast
  qed
  have e': "a = b + line_len b a * line_step b a"
    using line_end(1)[of b a] T' by (simp add: aligned_def)
  show ?thesis using sub[OF e] sub[OF e'] True T' by (auto simp: set_between_squares)
qed

lemma between_squares_range:
  assumes "s \<in> set (between_squares a b)"
  shows "min a b < s \<and> s < max a b"
proof -
  have al: "aligned a b" using assms by (auto simp: set_between_squares split: if_splits)
  then obtain k where k: "1 \<le> k" "k < line_len a b" "s = a + k * line_step a b"
    using assms by (auto simp: set_between_squares)
  have e: "b = a + line_len a b * line_step a b"
    using line_end(1)[of a b] al by (simp add: aligned_def)
  have ne: "a \<noteq> b" using al by (auto simp: aligned_def on_rook_line_def on_bishop_line_def)
  then have st: "line_step a b \<noteq> 0" using e by auto
  have bs: "b - s = (line_len a b - k) * line_step a b" using e k(3) by (simp add: algebra_simps)
  show ?thesis
  proof (cases "0 < line_step a b")
    case True
    have "0 < k * line_step a b" using k(1) True by (simp add: mult_pos_pos)
    moreover have "0 < (line_len a b - k) * line_step a b" using k(2) True by (simp add: mult_pos_pos)
    ultimately show ?thesis using k(3) bs by linarith
  next
    case False
    then have neg: "line_step a b < 0" using st by simp
    have "k * line_step a b < 0" using k(1) neg by (simp add: mult_pos_neg)
    moreover have "(line_len a b - k) * line_step a b < 0" using k(2) neg by (simp add: mult_pos_neg)
    ultimately show ?thesis using k(3) bs by linarith
  qed
qed

lemma between_squares_ok:
  assumes "square_is_ok a" "square_is_ok b" "s \<in> set (between_squares a b)"
  shows "square_is_ok s" "s \<noteq> a" "s \<noteq> b"
  using between_squares_range[OF assms(3)] assms(1,2) by (auto simp: square_is_ok_def)

lemma between_squares_not_ends: "a \<notin> set (between_squares a b)" "b \<notin> set (between_squares a b)"
  using between_squares_range[of a a b] between_squares_range[of b a b] by auto

section \<open>Attacks before and after a move\<close>

lemma in_attackers_bb:
  "e \<in> bb_squares (attackers_bb pos occ s c) \<longleftrightarrow> attacks_from pos occ c e s"
  unfolding attackers_bb_def attacks_from_def
  by (auto simp: piece_bb_defs in_bb_squares_iff[of e])

lemma square_is_attacked_iff:
  "square_is_attacked pos s c \<longleftrightarrow> (\<exists>e. attacks_from pos (occupied_squares pos) c e s)"
  by (auto simp: square_is_attacked_def bb_eq_zero_iff in_attackers_bb[symmetric])

lemma bb_squares_clear_bit:
  "0 \<le> x \<Longrightarrow> s \<in> bb_squares (clear_bit b x) \<longleftrightarrow> s \<in> bb_squares b \<and> s \<noteq> x"
  by (auto simp: bb_squares_def clear_bit_def bit_and_iff bit_not_iff bit_push_bit_iff
      bit_1_iff bit_exp_iff nat_eq_iff)

lemma path_clear_iff:
  assumes "square_is_ok a" "square_is_ok b"
  shows "path_clear occ a b \<longleftrightarrow> (\<forall>s\<in>set (between_squares a b). s \<notin> bb_squares occ)"
proof -
  have "bit occ (nat s) \<longleftrightarrow> s \<in> bb_squares occ" if "s \<in> set (between_squares a b)" for s
    using between_squares_ok(1)[OF assms that] by (simp add: bb_squares_def square_is_ok_def)
  then show ?thesis by (auto simp: path_clear_def list_all_iff)
qed

lemma attacks_from_split:
  "attacks_from pos occ c e s \<longleftrightarrow> nonslider_attack pos c e s \<or> slider_attack pos occ c e s"
  by (auto simp: attacks_from_def nonslider_attack_def slider_attack_def)

lemma opposite_color_neq [simp]: "opposite_color c \<noteq> c" "c \<noteq> opposite_color c"
  by (cases c; simp)+

lemma slider_attack_iff:
  "slider_attack pos occ c e s \<longleftrightarrow>
     square_is_ok e \<and> path_clear occ s e
     \<and> (((piece_on pos e = Pc c BISHOP \<or> piece_on pos e = Pc c QUEEN) \<and> on_bishop_line s e)
        \<or> ((piece_on pos e = Pc c ROOK \<or> piece_on pos e = Pc c QUEEN) \<and> on_rook_line s e))"
  by (auto simp: slider_attack_def bishop_attacks_bb_def rook_attacks_bb_def square_is_ok_def)

lemma nonslider_attack_ok: "nonslider_attack pos c e s \<Longrightarrow> square_is_ok e"
  by (auto simp: nonslider_attack_def square_is_ok_def pawn_attacks_def knight_attacks_def
      king_attacks_def)

text \<open>After a move of the side \<open>us\<close> that empties the squares \<open>V\<close> and puts a piece of \<open>us\<close> on
  \<open>to\<close>, an enemy attacker stood where it stands, and a slider that attacks \<open>k\<close> saw \<open>k\<close>
  through the vacated squares already.\<close>

lemma nonslider_attack_after:
  assumes "\<And>x. piece_on pos' x = (if x = to then Pc us q else if x \<in> V then EMPTY else piece_on pos x)"
    and "nonslider_attack pos' (opposite_color us) e k"
  shows "e \<noteq> to \<and> e \<notin> V \<and> nonslider_attack pos (opposite_color us) e k"
  using assms(2) unfolding nonslider_attack_def assms(1)
  by (auto split: if_splits)

lemma slider_attack_after:
  assumes board: "\<And>x. piece_on pos' x = (if x = to then Pc us q else if x \<in> V then EMPTY else piece_on pos x)"
    and b: "\<And>x. x \<in> bb_squares b \<longleftrightarrow> x \<in> bb_squares (occupied_squares pos) \<and> x \<notin> V"
    and k: "square_is_ok k"
    and att: "slider_attack pos' (occupied_squares pos') (opposite_color us) e k"
  shows "e \<noteq> to \<and> e \<notin> V \<and> slider_attack pos b (opposite_color us) e k
    \<and> to \<notin> set (between_squares k e)"
proof -
  from att have e: "square_is_ok e" and pc: "path_clear (occupied_squares pos') k e"
    by (auto simp: slider_attack_iff)
  have col: "color_of_piece (piece_on pos' e) = Some (opposite_color us)"
    using att by (auto simp: slider_attack_iff)
  then have ne: "e \<noteq> to \<and> e \<notin> V" unfolding board by (auto split: if_splits)
  then have same: "piece_on pos' e = piece_on pos e" unfolding board by simp
  have clear': "\<forall>x\<in>set (between_squares k e). x \<notin> bb_squares (occupied_squares pos')"
    using pc path_clear_iff[OF k e] by simp
  have 1: "to \<notin> set (between_squares k e)"
  proof
    assume t: "to \<in> set (between_squares k e)"
    then have "square_is_ok to" using between_squares_ok(1)[OF k e] by simp
    then have "to \<in> bb_squares (occupied_squares pos')"
      unfolding bb_squares_occupied board by (simp add: square_is_ok_def)
    then show False using clear' t by blast
  qed
  have "\<forall>x\<in>set (between_squares k e). x \<notin> bb_squares b"
  proof
    fix x assume x: "x \<in> set (between_squares k e)"
    then have "x \<notin> bb_squares (occupied_squares pos')" using clear' by blast
    moreover have "square_is_ok x" using between_squares_ok(1)[OF k e x] .
    moreover have "x \<noteq> to" using x 1 by blast
    ultimately show "x \<notin> bb_squares b"
      unfolding b bb_squares_occupied board by (auto simp: square_is_ok_def split: if_splits)
  qed
  then have "path_clear b k e" using path_clear_iff[OF k e] by simp
  then have "slider_attack pos b (opposite_color us) e k"
    using att same e by (auto simp: slider_attack_iff)
  then show ?thesis using ne 1 by simp
qed

text \<open>A slider that attacks the king once a piece has left its square, and did not attack
  it before, pins that piece.\<close>

lemma slider_attack_unpinned:
  assumes b: "\<And>x. x \<in> bb_squares b \<longleftrightarrow> x \<in> bb_squares (occupied_squares pos) \<and> x \<noteq> from"
    and k: "square_is_ok (king_square pos us)"
    and col: "color_of_piece (piece_on pos from) = Some us"
    and fr: "square_is_ok from"
    and np: "from \<notin> bb_squares (pinned_pieces pos us)"
    and att: "slider_attack pos b (opposite_color us) e (king_square pos us)"
  shows "slider_attack pos (occupied_squares pos) (opposite_color us) e (king_square pos us)"
proof (rule ccontr)
  let ?k = "king_square pos us"
  assume n: "\<not> slider_attack pos (occupied_squares pos) (opposite_color us) e ?k"
  from att have e: "square_is_ok e" and pc: "path_clear b ?k e" by (auto simp: slider_attack_iff)
  have npc: "\<not> path_clear (occupied_squares pos) ?k e"
    using n att by (auto simp: slider_attack_iff)
  have cb: "\<forall>x\<in>set (between_squares ?k e). x \<notin> bb_squares b"
    using pc path_clear_iff[OF k e] by simp
  obtain x where x: "x \<in> set (between_squares ?k e)" "x \<in> bb_squares (occupied_squares pos)"
    using npc path_clear_iff[OF k e] by blast
  then have "x = from" using cb b by blast
  then have fb: "from \<in> set (between_squares ?k e)" using x by simp
  have others: "\<forall>y\<in>set (between_squares ?k e). y = from \<or> piece_on pos y = EMPTY"
  proof
    fix y assume y: "y \<in> set (between_squares ?k e)"
    then have "y \<notin> bb_squares b" using cb by blast
    moreover have "square_is_ok y" using between_squares_ok(1)[OF k e y] .
    ultimately show "y = from \<or> piece_on pos y = EMPTY"
      unfolding b bb_squares_occupied by (auto simp: square_is_ok_def)
  qed
  have sb: "sole_blocker pos ?k e from"
    using fb others by (simp add: sole_blocker_def list_all_iff)
  have sl: "slider_on_line pos (opposite_color us) ?k e"
    using att by (auto simp: slider_attack_iff slider_on_line_def)
  have "e \<in> set (map int [0..<64])"
  proof -
    have "nat e \<in> set [0..<64]" using e by (auto simp: square_is_ok_def)
    moreover have "int (nat e) = e" using e by (simp add: square_is_ok_def)
    ultimately show ?thesis by (metis (no_types) image_eqI set_map)
  qed
  then have "list_ex (\<lambda>e. slider_on_line pos (opposite_color us) ?k e \<and> sole_blocker pos ?k e from)
      (map int [0..<64])"
    using sb sl unfolding list_ex_iff by blast
  then have "from \<in> bb_squares (pinned_pieces pos us)"
    using col fr by (simp add: pinned_pieces_def square_is_ok_def)
  then show False using np by simp
qed

lemma opposite_opposite [simp]: "opposite_color (opposite_color c) = c"
  by (cases c) simp_all

lemma checkers_iff:
  "e \<in> bb_squares (checkers pos) \<longleftrightarrow>
     attacks_from pos (occupied_squares pos) (opposite_color (side_to_move pos)) e
       (king_square pos (side_to_move pos))"
  by (simp add: checkers_def in_attackers_bb)

text \<open>The four kinds of evasion, on the board after the move.\<close>

lemma no_attacker_after_capture:
  assumes k: "square_is_ok (king_square pos us)" and us: "us = side_to_move pos"
    and single: "bb_squares (checkers pos) = {checksq}"
    and fr: "square_is_ok from" "color_of_piece (piece_on pos from) = Some us"
      "from \<notin> bb_squares (pinned_pieces pos us)"
    and board: "\<And>x. piece_on pos' x =
        (if x = checksq then Pc us q else if x = from then EMPTY else piece_on pos x)"
  shows "\<not> attacks_from pos' (occupied_squares pos') (opposite_color us) e (king_square pos us)"
proof
  let ?k = "king_square pos us" and ?them = "opposite_color us"
  let ?b = "clear_bit (occupied_squares pos) from"
  have board': "\<And>x. piece_on pos' x =
      (if x = checksq then Pc us q else if x \<in> {from} then EMPTY else piece_on pos x)"
    using board by simp
  have b: "\<And>x. x \<in> bb_squares ?b \<longleftrightarrow> x \<in> bb_squares (occupied_squares pos) \<and> x \<notin> {from}"
    using fr(1) by (simp add: bb_squares_clear_bit square_is_ok_def)
  have b1: "\<And>x. x \<in> bb_squares ?b \<longleftrightarrow> x \<in> bb_squares (occupied_squares pos) \<and> x \<noteq> from"
    using b by simp
  assume "attacks_from pos' (occupied_squares pos') ?them e ?k"
  then consider (ns) "nonslider_attack pos' ?them e ?k"
    | (sl) "slider_attack pos' (occupied_squares pos') ?them e ?k"
    using attacks_from_split by blast
  then have "e \<noteq> checksq \<and> attacks_from pos (occupied_squares pos) ?them e ?k"
  proof cases
    case ns
    then show ?thesis
      using nonslider_attack_after[OF board' ns] attacks_from_split by blast
  next
    case sl
    note a = slider_attack_after[OF board' b k sl]
    then have "slider_attack pos ?b ?them e ?k" by simp
    then have "slider_attack pos (occupied_squares pos) ?them e ?k"
      using slider_attack_unpinned[OF b1 k fr(2) fr(1) fr(3)] by blast
    then show ?thesis using a attacks_from_split by blast
  qed
  then have "e \<noteq> checksq \<and> e \<in> bb_squares (checkers pos)"
    using us by (simp add: checkers_iff)
  then show False using single by simp
qed

lemma no_attacker_after_block:
  assumes k: "square_is_ok (king_square pos us)" and us: "us = side_to_move pos"
    and single: "bb_squares (checkers pos) = {checksq}"
    and slider: "checksq \<in> bb_squares (sliders pos)"
    and fr: "square_is_ok from" "color_of_piece (piece_on pos from) = Some us"
      "from \<notin> bb_squares (pinned_pieces pos us)"
    and to: "to \<in> set (between_squares checksq (king_square pos us))"
    and board: "\<And>x. piece_on pos' x =
        (if x = to then Pc us q else if x = from then EMPTY else piece_on pos x)"
  shows "\<not> attacks_from pos' (occupied_squares pos') (opposite_color us) e (king_square pos us)"
proof
  let ?k = "king_square pos us" and ?them = "opposite_color us"
  let ?b = "clear_bit (occupied_squares pos) from"
  have board': "\<And>x. piece_on pos' x =
      (if x = to then Pc us q else if x \<in> {from} then EMPTY else piece_on pos x)"
    using board by simp
  have b: "\<And>x. x \<in> bb_squares ?b \<longleftrightarrow> x \<in> bb_squares (occupied_squares pos) \<and> x \<notin> {from}"
    using fr(1) by (simp add: bb_squares_clear_bit square_is_ok_def)
  have b1: "\<And>x. x \<in> bb_squares ?b \<longleftrightarrow> x \<in> bb_squares (occupied_squares pos) \<and> x \<noteq> from"
    using b by simp
  have chk: "x = checksq" if "attacks_from pos (occupied_squares pos) ?them x ?k" for x
    using that single us by (auto simp: checkers_iff[symmetric])
  have sl_type: "type_of_piece (piece_on pos checksq) \<in> {Some BISHOP, Some ROOK, Some QUEEN}"
    using slider by (simp add: sliders_def)
  assume "attacks_from pos' (occupied_squares pos') ?them e ?k"
  then consider (ns) "nonslider_attack pos' ?them e ?k"
    | (sl) "slider_attack pos' (occupied_squares pos') ?them e ?k"
    using attacks_from_split by blast
  then show False
  proof cases
    case ns
    then have n: "nonslider_attack pos ?them e ?k"
      using nonslider_attack_after[OF board' ns] by blast
    then have "e = checksq" using chk attacks_from_split by blast
    then show False using n sl_type by (auto simp: nonslider_attack_def)
  next
    case sl
    note a = slider_attack_after[OF board' b k sl]
    then have "slider_attack pos ?b ?them e ?k" by simp
    then have "slider_attack pos (occupied_squares pos) ?them e ?k"
      using slider_attack_unpinned[OF b1 k fr(2) fr(1) fr(3)] by blast
    then have "e = checksq" using chk attacks_from_split by blast
    then have "to \<notin> set (between_squares ?k checksq)" using a by simp
    then show False using to between_squares_sym[of ?k checksq] by simp
  qed
qed

lemma no_attacker_after_ep:
  assumes k: "square_is_ok (king_square pos us)" and us: "us = side_to_move pos"
    and single: "bb_squares (checkers pos) = {checksq}"
    and fr: "square_is_ok from"
    and safe: "ep_evasion_safe pos checksq from"
    and board: "\<And>x. piece_on pos' x =
        (if x = to then Pc us q else if x = checksq then EMPTY
         else if x = from then EMPTY else piece_on pos x)"
  shows "\<not> attacks_from pos' (occupied_squares pos') (opposite_color us) e (king_square pos us)"
proof
  let ?k = "king_square pos us" and ?them = "opposite_color us"
  let ?b = "clear_bit (clear_bit (occupied_squares pos) from) checksq"
  have cs: "square_is_ok checksq"
    using single by (auto simp: bb_squares_def square_is_ok_def)
  have board': "\<And>x. piece_on pos' x =
      (if x = to then Pc us q else if x \<in> {from, checksq} then EMPTY else piece_on pos x)"
    using board by simp
  have b: "\<And>x. x \<in> bb_squares ?b \<longleftrightarrow> x \<in> bb_squares (occupied_squares pos) \<and> x \<notin> {from, checksq}"
    using fr cs by (auto simp: bb_squares_clear_bit square_is_ok_def)
  have chk: "x = checksq" if "attacks_from pos (occupied_squares pos) ?them x ?k" for x
    using that single us by (auto simp: checkers_iff[symmetric])
  assume "attacks_from pos' (occupied_squares pos') ?them e ?k"
  then consider (ns) "nonslider_attack pos' ?them e ?k"
    | (sl) "slider_attack pos' (occupied_squares pos') ?them e ?k"
    using attacks_from_split by blast
  then show False
  proof cases
    case ns
    note a = nonslider_attack_after[OF board' ns]
    then have "e = checksq" using chk attacks_from_split by blast
    then show False using a by simp
  next
    case sl
    note a = slider_attack_after[OF board' b k sl]
    then have s: "slider_attack pos ?b ?them e ?k" by simp
    have "e \<in> bb_squares (bishop_attacks_bb ?k ?b AND bishops_and_queens pos ?them)
        \<or> e \<in> bb_squares (rook_attacks_bb ?k ?b AND rooks_and_queens pos ?them)"
      using s unfolding slider_attack_def
      by (auto simp: piece_bb_defs in_bb_squares_iff[of e "bishop_attacks_bb _ _"]
          in_bb_squares_iff[of e "rook_attacks_bb _ _"])
    then have "bishop_attacks_bb ?k ?b AND bishops_and_queens pos ?them \<noteq> 0
        \<or> rook_attacks_bb ?k ?b AND rooks_and_queens pos ?them \<noteq> 0"
      by (auto simp: bb_eq_zero_iff)
    then show False using safe us by (simp add: ep_evasion_safe_def Let_def)
  qed
qed

lemma no_attacker_after_king_move:
  assumes k: "square_is_ok (king_square pos us)" and us: "us = side_to_move pos"
    and to: "square_is_ok to"
    and safe: "king_evasion_safe pos (clear_bit (occupied_squares pos) (king_square pos us)) to"
    and board: "\<And>x. piece_on pos' x =
        (if x = to then Pc us q else if x = king_square pos us then EMPTY else piece_on pos x)"
  shows "\<not> attacks_from pos' (occupied_squares pos') (opposite_color us) e to"
proof
  let ?k = "king_square pos us" and ?them = "opposite_color us"
  let ?b = "clear_bit (occupied_squares pos) ?k"
  have board': "\<And>x. piece_on pos' x =
      (if x = to then Pc us q else if x \<in> {?k} then EMPTY else piece_on pos x)"
    using board by simp
  have b: "\<And>x. x \<in> bb_squares ?b \<longleftrightarrow> x \<in> bb_squares (occupied_squares pos) \<and> x \<notin> {?k}"
    using k by (simp add: bb_squares_clear_bit square_is_ok_def)
  note safe' = safe[unfolded king_evasion_safe_def Let_def, folded us]
  assume "attacks_from pos' (occupied_squares pos') ?them e to"
  then consider (ns) "nonslider_attack pos' ?them e to"
    | (sl) "slider_attack pos' (occupied_squares pos') ?them e to"
    using attacks_from_split by blast
  then show False
  proof cases
    case ns
    then have n: "nonslider_attack pos ?them e to"
      using nonslider_attack_after[OF board' ns] by blast
    have "e \<in> bb_squares (pawn_attacks us to AND pawns pos ?them)
        \<or> e \<in> bb_squares (knight_attacks to AND knights pos ?them)
        \<or> e \<in> bb_squares (king_attacks to AND kings pos ?them)"
      using n unfolding nonslider_attack_def
      by (auto simp: piece_bb_defs in_bb_squares_iff[of e "pawn_attacks _ _"]
          in_bb_squares_iff[of e "knight_attacks _"] in_bb_squares_iff[of e "king_attacks _"])
    then have "pawn_attacks us to AND pawns pos ?them \<noteq> 0
        \<or> knight_attacks to AND knights pos ?them \<noteq> 0
        \<or> king_attacks to AND kings pos ?them \<noteq> 0"
      by (auto simp: bb_eq_zero_iff)
    then show False using safe' by simp
  next
    case sl
    note a = slider_attack_after[OF board' b to sl]
    then have s: "slider_attack pos ?b ?them e to" by simp
    have "e \<in> bb_squares (bishop_attacks_bb to ?b AND bishops_and_queens pos ?them)
        \<or> e \<in> bb_squares (rook_attacks_bb to ?b AND rooks_and_queens pos ?them)"
      using s unfolding slider_attack_def
      by (auto simp: piece_bb_defs in_bb_squares_iff[of e "bishop_attacks_bb _ _"]
          in_bb_squares_iff[of e "rook_attacks_bb _ _"])
    then have "bishop_attacks_bb to ?b AND bishops_and_queens pos ?them \<noteq> 0
        \<or> rook_attacks_bb to ?b AND rooks_and_queens pos ?them \<noteq> 0"
      by (auto simp: bb_eq_zero_iff)
    then show False using safe' by simp
  qed
qed

section \<open>Evasions are legal\<close>

lemma single_bit_test:
  fixes b :: Bitboard
  assumes "b \<noteq> 0" "b AND (b - 1) = 0"
  shows "bb_squares b = {first_1 b}"
proof -
  note fp = first_1_props[OF assms(1)]
  have in1: "first_1 b \<in> bb_squares b" using fp by (simp add: bb_squares_def)
  have "s = first_1 b" if s: "s \<in> bb_squares b" for s
  proof (rule ccontr)
    assume ne: "s \<noteq> first_1 b"
    have bs: "bit b (nat s)" "0 \<le> s" using s by (simp_all add: bb_squares_def)
    have "\<not> nat s < nat (first_1 b)" using fp(4) bs(1) by blast
    then have "nat (first_1 b) < nat s" using ne bs(2) fp(3) by linarith
    then have "bit (b AND (b - 1)) (nat s)"
      using word_and_pred_bit[OF assms(1), of "nat s"] bs(1) fp(1) by blast
    then show False using assms(2) by simp
  qed
  then show ?thesis using in1 by blast
qed

lemma in_map_int_upt: "square_is_ok s \<Longrightarrow> s \<in> set (map int [0..<64])"
proof -
  assume s: "square_is_ok s"
  then have "nat s \<in> set [0..<64]" by (auto simp: square_is_ok_def)
  moreover have "int (nat s) = s" using s by (simp add: square_is_ok_def)
  ultimately show ?thesis by (metis (no_types) image_eqI set_map)
qed

lemma pos_is_ok_king:
  assumes "pos_is_ok pos"
  shows "square_is_ok (king_square pos c)" "piece_on pos (king_square pos c) = Pc c KING"
proof -
  show ok: "square_is_ok (king_square pos c)"
    using assms by (cases c) (simp_all add: pos_is_ok_def Let_def)
  have "\<forall>s\<in>set (map int [0..<64]).
      (piece_on pos s = king_of_color WHITE) = (s = king_square pos WHITE)
      \<and> (piece_on pos s = king_of_color BLACK) = (s = king_square pos BLACK)"
    using assms unfolding pos_is_ok_def Let_def list_all_iff by blast
  then show "piece_on pos (king_square pos c) = Pc c KING"
    using in_map_int_upt[OF ok] by (cases c) (auto simp: king_of_color_def)
qed

lemma pos_is_ok_ep: "pos_is_ok pos \<Longrightarrow> ep_is_ok pos"
  by (simp add: pos_is_ok_def Let_def)

text \<open>A pawn that gives check when an en-passant square is set is the pawn that has just
  made the double push: any other pawn would have given check before the push.\<close>

lemma ep_checker_is_pushed_pawn:
  assumes ok: "ep_is_ok pos" and ep: "ep_square pos \<noteq> SQ_NONE"
    and us: "us = side_to_move pos"
    and chk: "checksq \<in> bb_squares (checkers pos)"
    and pw: "piece_on pos checksq = Pc (opposite_color us) PAWN"
  shows "checksq = ep_square pos - pawn_push us"
proof (rule ccontr)
  let ?them = "opposite_color us" and ?k = "king_square pos us"
  let ?pre = "before_double_push pos"
  assume ne: "checksq \<noteq> ep_square pos - pawn_push us"
  have na: "\<not> square_is_attacked ?pre ?k ?them"
    using ok ep us by (simp add: ep_is_ok_def Let_def)
  have "attacks_from pos (occupied_squares pos) ?them checksq ?k"
    using chk us by (simp add: checkers_iff)
  then have pa: "checksq \<in> bb_squares (pawn_attacks us ?k)"
    using pw by (auto simp: attacks_from_def)
  have "piece_on ?pre checksq = Pc ?them PAWN"
    using ne pw us by (simp add: before_double_push_def Let_def pawn_of_color_def)
  then have "attacks_from ?pre (occupied_squares ?pre) ?them checksq ?k"
    using pa by (simp add: attacks_from_def)
  then show False using na square_is_attacked_iff by blast
qed

text \<open>What the parts of \<^verbatim>\<open>generate_evasions\<close> emit.\<close>

lemma king_evasions_shape:
  assumes "m \<in> set (generate_king_evasions pos)"
  shows "\<exists>to. m = make_move (king_square pos (side_to_move pos)) to \<and> square_is_ok to
     \<and> king_evasion_safe pos
          (clear_bit (occupied_squares pos) (king_square pos (side_to_move pos))) to"
  using assms unfolding generate_king_evasions_def Let_def
  by (auto simp: square_is_ok_def split: if_splits)

lemma checker_captures_shape:
  assumes "m \<in> set (generate_checker_captures pos checksq pinned)"
  shows "\<not> move_is_ep m \<and> \<not> move_is_castle m \<and> move_to m = checksq
     \<and> square_is_ok (move_from m) \<and> moved_by_non_king pos m
     \<and> move_from m \<notin> bb_squares pinned"
  using assms unfolding generate_checker_captures_def Let_def moved_by_non_king_def
  by (auto simp: piece_bb_defs square_is_ok_def split: if_splits)

lemma blocking_evasions_shape:
  assumes "m \<in> set (generate_blocking_evasions pos checksq pinned)"
  shows "\<not> move_is_ep m \<and> \<not> move_is_castle m
     \<and> move_to m \<in> bb_squares (squares_between checksq (king_square pos (side_to_move pos)))
     \<and> square_is_ok (move_from m) \<and> moved_by_non_king pos m
     \<and> move_from m \<notin> bb_squares pinned"
  using assms unfolding generate_blocking_evasions_def Let_def moved_by_non_king_def
  by (auto simp: piece_bb_defs square_is_ok_def bb_squares_push_bit bb_squares_drop_bit
      add.commute split: if_splits)

lemma ep_evasions_shape:
  assumes "m \<in> set (generate_ep_evasions pos checksq pinned)"
  shows "move_is_ep m \<and> \<not> move_is_castle m \<and> move_to m = ep_square pos
     \<and> square_is_ok (move_from m) \<and> ep_evasion_safe pos checksq (move_from m)"
  using assms unfolding generate_ep_evasions_def Let_def
  by (auto simp: piece_bb_defs square_is_ok_def split: if_splits)

text \<open>The board and the king's square after a move.\<close>

lemma do_move_normal:
  assumes "\<not> move_is_castle m" "\<not> move_is_ep m"
  shows "piece_on (do_move pos m) x =
      (if x = move_to m
       then (case move_promotion m of None \<Rightarrow> piece_on pos (move_from m)
             | Some p \<Rightarrow> Pc (side_to_move pos) p)
       else if x = move_from m then EMPTY else piece_on pos x)"
    and "king_square (do_move pos m) (side_to_move pos) =
      (if move_from m = king_square pos (side_to_move pos) then move_to m
       else king_square pos (side_to_move pos))"
  using assms by (simp_all add: do_move_def Let_def)

lemma do_move_ep:
  assumes "\<not> move_is_castle m" "move_is_ep m"
  shows "piece_on (do_move pos m) x =
      (if x = move_to m then piece_on pos (move_from m)
       else if x = move_to m - pawn_push (side_to_move pos) then EMPTY
       else if x = move_from m then EMPTY else piece_on pos x)"
    and "king_square (do_move pos m) c = king_square pos c"
  using assms by (simp_all add: do_move_def Let_def)

lemma ep_evasions_pawn:
  assumes "m \<in> set (generate_ep_evasions pos checksq pinned)"
  shows "piece_on pos (move_from m) = Pc (side_to_move pos) PAWN"
  using assms unfolding generate_ep_evasions_def Let_def
  by (auto simp: piece_bb_defs split: if_splits)

lemma in_squares_between:
  "s \<in> bb_squares (squares_between a b) \<Longrightarrow> s \<in> set (between_squares a b)"
  by (simp add: squares_between_def)

text \<open>
  Claim C2. In a well-formed position with the side to move in check, every move returned
  by \<^verbatim>\<open>generate_evasions\<close> is legal: on the board after the move, the king of the side
  that moved is not attacked by the opponent.
\<close>

theorem evasions_are_legal:
  assumes ok: "pos_is_ok pos" and chk: "is_check pos"
    and m: "m \<in> set (generate_evasions pos)"
  shows "\<not> square_is_attacked (do_move pos m) (king_square (do_move pos m) (side_to_move pos))
           (opposite_color (side_to_move pos))"
proof -
  define us where "us = side_to_move pos"
  let ?them = "opposite_color us" and ?k = "king_square pos us"
  let ?pos' = "do_move pos m"
  note k = pos_is_ok_king[OF ok, of us]
  have goal: "\<not> square_is_attacked ?pos' (king_square ?pos' us) ?them"
    if "\<And>e. \<not> attacks_from ?pos' (occupied_squares ?pos') ?them e (king_square ?pos' us)"
    using that square_is_attacked_iff by blast
  have nz: "checkers pos \<noteq> 0" using chk by (simp add: is_check_def)
  consider (king) "m \<in> set (generate_king_evasions pos)"
    | (capt) "checkers pos AND (checkers pos - 1) = 0"
        "m \<in> set (generate_checker_captures pos (first_1 (checkers pos)) (pinned_pieces pos us))"
    | (block) "checkers pos AND (checkers pos - 1) = 0" "checkers pos AND sliders pos \<noteq> 0"
        "m \<in> set (generate_blocking_evasions pos (first_1 (checkers pos)) (pinned_pieces pos us))"
    | (ep) "checkers pos AND (checkers pos - 1) = 0" "ep_square pos \<noteq> SQ_NONE"
        "checkers pos AND pawns pos ?them \<noteq> 0"
        "m \<in> set (generate_ep_evasions pos (first_1 (checkers pos)) (pinned_pieces pos us))"
    using m unfolding generate_evasions_def Let_def us_def by (auto split: if_splits)
  then have "\<not> square_is_attacked ?pos' (king_square ?pos' us) ?them"
  proof cases
    case king
    then obtain to where to: "m = make_move ?k to" "square_is_ok to"
        "king_evasion_safe pos (clear_bit (occupied_squares pos) ?k) to"
      using king_evasions_shape[of m pos] us_def by auto
    have ksq': "king_square ?pos' us = to"
      using do_move_normal(2)[of m pos] to(1) us_def by simp
    have board: "\<And>x. piece_on ?pos' x =
        (if x = to then Pc us KING else if x = ?k then EMPTY else piece_on pos x)"
      using do_move_normal(1)[of m pos] to(1) k(2) us_def by simp
    show ?thesis
      unfolding ksq'
      using no_attacker_after_king_move[OF k(1) us_def to(2,3) board] square_is_attacked_iff
      by blast
  next
    case capt
    let ?c = "first_1 (checkers pos)"
    have single: "bb_squares (checkers pos) = {?c}" using single_bit_test[OF nz capt(1)] .
    note sh = checker_captures_shape[OF capt(2)]
    obtain t where t: "t \<noteq> KING" "piece_on pos (move_from m) = Pc us t"
      using sh us_def by (auto simp: moved_by_non_king_def)
    have fk: "move_from m \<noteq> ?k" using t k(2) by auto
    have ksq': "king_square ?pos' us = ?k"
      using do_move_normal(2)[of m pos] sh fk us_def by simp
    obtain q where board: "\<And>x. piece_on ?pos' x =
        (if x = ?c then Pc us q else if x = move_from m then EMPTY else piece_on pos x)"
    proof (cases "move_promotion m")
      case None
      then have "\<And>x. piece_on ?pos' x =
        (if x = ?c then Pc us t else if x = move_from m then EMPTY else piece_on pos x)"
        using do_move_normal(1)[of m pos] sh t by simp
      then show ?thesis using that by blast
    next
      case (Some p)
      then have "\<And>x. piece_on ?pos' x =
        (if x = ?c then Pc us p else if x = move_from m then EMPTY else piece_on pos x)"
        using do_move_normal(1)[of m pos] sh us_def by simp
      then show ?thesis using that by blast
    qed
    have col: "color_of_piece (piece_on pos (move_from m)) = Some us" using t by simp
    show ?thesis
      unfolding ksq'
      using no_attacker_after_capture[OF k(1) us_def single _ col _ board] sh
        square_is_attacked_iff by blast
  next
    case block
    let ?c = "first_1 (checkers pos)"
    have single: "bb_squares (checkers pos) = {?c}" using single_bit_test[OF nz block(1)] .
    have "bb_squares (checkers pos AND sliders pos) \<noteq> {}"
      using block(2) by (simp add: bb_eq_zero_iff)
    then have sl: "?c \<in> bb_squares (sliders pos)" using single by auto
    note sh = blocking_evasions_shape[OF block(3)]
    obtain t where t: "t \<noteq> KING" "piece_on pos (move_from m) = Pc us t"
      using sh us_def by (auto simp: moved_by_non_king_def)
    have fk: "move_from m \<noteq> ?k" using t k(2) by auto
    have ksq': "king_square ?pos' us = ?k"
      using do_move_normal(2)[of m pos] sh fk us_def by simp
    have to: "move_to m \<in> set (between_squares ?c ?k)"
      using sh in_squares_between us_def by blast
    obtain q where board: "\<And>x. piece_on ?pos' x =
        (if x = move_to m then Pc us q else if x = move_from m then EMPTY else piece_on pos x)"
    proof (cases "move_promotion m")
      case None
      then have "\<And>x. piece_on ?pos' x =
        (if x = move_to m then Pc us t else if x = move_from m then EMPTY else piece_on pos x)"
        using do_move_normal(1)[of m pos] sh t by simp
      then show ?thesis using that by blast
    next
      case (Some p)
      then have "\<And>x. piece_on ?pos' x =
        (if x = move_to m then Pc us p else if x = move_from m then EMPTY else piece_on pos x)"
        using do_move_normal(1)[of m pos] sh us_def by simp
      then show ?thesis using that by blast
    qed
    have col: "color_of_piece (piece_on pos (move_from m)) = Some us" using t by simp
    show ?thesis
      unfolding ksq'
      using no_attacker_after_block[OF k(1) us_def single sl _ col _ to board] sh
        square_is_attacked_iff by blast
  next
    case ep
    let ?c = "first_1 (checkers pos)"
    have single: "bb_squares (checkers pos) = {?c}" using single_bit_test[OF nz ep(1)] .
    have "bb_squares (checkers pos AND pawns pos ?them) \<noteq> {}"
      using ep(3) by (simp add: bb_eq_zero_iff)
    then have pw: "piece_on pos ?c = Pc ?them PAWN"
      using single by (auto simp: pawns_def)
    have cin: "?c \<in> bb_squares (checkers pos)" using single by simp
    have c: "?c = ep_square pos - pawn_push us"
      using ep_checker_is_pushed_pawn[OF pos_is_ok_ep[OF ok] ep(2) us_def cin pw] .
    note sh = ep_evasions_shape[OF ep(4)]
    have pwn: "piece_on pos (move_from m) = Pc us PAWN"
      using ep_evasions_pawn[OF ep(4)] us_def by simp
    have ksq': "king_square ?pos' us = ?k" using do_move_ep(2)[of m pos] sh by simp
    have board: "\<And>x. piece_on ?pos' x =
        (if x = move_to m then Pc us PAWN else if x = ?c then EMPTY
         else if x = move_from m then EMPTY else piece_on pos x)"
      using do_move_ep(1)[of m pos] sh pwn c us_def by simp
    show ?thesis
      unfolding ksq'
      using no_attacker_after_ep[OF k(1) us_def single _ _ board] sh
        square_is_attacked_iff by blast
  qed
  then show ?thesis by (simp add: us_def)
qed

theorem evasions_are_legal_witness:
  "pos_is_ok pos_ep_check \<and> is_check pos_ep_check
   \<and> make_ep_move 35 42 \<in> set (generate_evasions pos_ep_check)
   \<and> \<not> square_is_attacked (do_move pos_ep_check (make_ep_move 35 42))
         (king_square (do_move pos_ep_check (make_ep_move 35 42)) (side_to_move pos_ep_check))
         (opposite_color (side_to_move pos_ep_check))"
proof -
  have a: "pos_is_ok pos_ep_check" by code_simp
  have b: "is_check pos_ep_check" by code_simp
  have c: "make_ep_move 35 42 \<in> set (generate_evasions pos_ep_check)" by code_simp
  note r = evasions_are_legal[OF a b c]
  show ?thesis using a b c r by (intro conjI)
qed

text \<open>
  The condition on the en-passant square matters: in a position whose en-passant square
  does not belong to the checking pawn, the en-passant branch emits a capture that leaves
  the king in check.
\<close>

lemma ep_evasion_of_other_pawn:
  "\<not> pos_is_ok pos_ep_other_checker \<and> is_check pos_ep_other_checker
   \<and> make_ep_move 36 45 \<in> set (generate_evasions pos_ep_other_checker)
   \<and> square_is_attacked (do_move pos_ep_other_checker (make_ep_move 36 45))
        (king_square (do_move pos_ep_other_checker (make_ep_move 36 45)) WHITE) BLACK"
  by code_simp


section \<open>Direct pawn checks\<close>

text \<open>
  In a well-formed position the side that has just moved is not in check, so no pawn of
  the side to move attacks the enemy king. For Black the double pushes are masked with
  \<^verbatim>\<open>black_pawn_attacks(ksq)\<close>, where the single pushes use \<^verbatim>\<open>white_pawn_attacks(ksq)\<close>;
  a push that passes this mask starts from a square that attacks the white king, so in a
  well-formed position Black's list of direct double-push checks is empty.
\<close>

lemma pawn_attacks_sym:
  assumes "square_is_ok s" "square_is_ok t"
  shows "t \<in> bb_squares (pawn_attacks (opposite_color c) s) \<longleftrightarrow> s \<in> bb_squares (pawn_attacks c t)"
  using assms
  by (cases c) (auto simp: pawn_attacks_def file_distance_def square_is_ok_def abs_minus_commute)

lemma pos_is_ok_other_king_safe:
  "pos_is_ok pos \<Longrightarrow>
     \<not> square_is_attacked pos (king_square pos (opposite_color (side_to_move pos))) (side_to_move pos)"
  by (simp add: pos_is_ok_def Let_def)

lemma pawn_attacking_king_excluded:
  assumes ok: "pos_is_ok pos" and us: "us = side_to_move pos"
    and pw: "piece_on pos from = Pc us PAWN"
    and at: "from \<in> bb_squares (pawn_attacks (opposite_color us) (king_square pos (opposite_color us)))"
  shows False
proof -
  have "attacks_from pos (occupied_squares pos) us from (king_square pos (opposite_color us))"
    using pw at by (simp add: attacks_from_def)
  then have "square_is_attacked pos (king_square pos (opposite_color us)) us"
    using square_is_attacked_iff by blast
  then show False using pos_is_ok_other_king_safe[OF ok] us by simp
qed

lemma black_double_direct_empty:
  assumes ok: "pos_is_ok pos" and us: "side_to_move pos = BLACK"
  shows "pawn_direct_double_checks pos dc = []"
proof -
  let ?ksq = "king_square pos WHITE"
  have k: "square_is_ok ?ksq" using pos_is_ok_king(1)[OF ok] .
  have "False" if m: "m \<in> set (pawn_direct_double_checks pos dc)" for m
  proof -
    from m obtain to where to: "piece_on pos (to + 16) = Pc BLACK PAWN"
        "0 \<le> to" "to + 16 < 64" "square_rank (to + 8) = RANK_6"
        "to \<in> bb_squares (pawn_attacks BLACK ?ksq)"
      unfolding pawn_direct_double_checks_def Let_def us
      by (auto simp: piece_bb_defs bb_squares_drop_bit black_pawn_attacks_def Rank6BB_def
          add.commute)
    have md: "(to + 16) mod 8 = to mod 8" "(to + 16) div 8 = to div 8 + 2" by presburger+
    have "to + 16 \<in> bb_squares (pawn_attacks WHITE ?ksq)"
      using to(2-5) k
      by (auto simp: pawn_attacks_def file_distance_def square_rank_def square_file_def
          square_is_ok_def md)
    then show False
      using pawn_attacking_king_excluded[OF ok us[symmetric], of "to + 16"] to(1) by simp
  qed
  then show ?thesis by (cases "pawn_direct_double_checks pos dc") auto
qed

text \<open>
  Claim C5. In a well-formed position that is not in check, every pawn single push and
  every pawn double push that \<^verbatim>\<open>generate_checks\<close> emits as a direct check (the pawn is
  not a discovered-check candidate) lands on an empty square of the pawn-attack set of the
  enemy colour computed from the enemy king's square, that is, on a square from which a
  pawn of the side to move attacks the enemy king. This holds for both colours, for single
  and for double pushes.
\<close>

theorem direct_pawn_checks_land_on_check_squares:
  assumes ok: "pos_is_ok pos" and nc: "\<not> is_check pos"
    and us: "us = side_to_move pos" and them: "them = opposite_color us"
    and ksq: "ksq = king_square pos them"
    and dc: "dc = discovered_check_candidates pos us"
    and m: "m \<in> set (pawn_direct_single_checks pos dc) \<or> m \<in> set (pawn_direct_double_checks pos dc)"
  shows "square_is_empty pos (move_to m)
     \<and> move_to m \<in> bb_squares (pawn_attacks them ksq)
     \<and> ksq \<in> bb_squares (pawn_attacks us (move_to m))
     \<and> piece_on pos (move_from m) = pawn_of_color us
     \<and> move_from m \<notin> bb_squares dc
     \<and> (move_to m = move_from m + pawn_push us \<or> move_to m = move_from m + 2 * pawn_push us)"
proof -
  have k: "square_is_ok ksq" using pos_is_ok_king(1)[OF ok] ksq by simp
  have core: "square_is_empty pos (move_to m)
     \<and> move_to m \<in> bb_squares (pawn_attacks them ksq)
     \<and> piece_on pos (move_from m) = pawn_of_color us
     \<and> move_from m \<notin> bb_squares dc
     \<and> (move_to m = move_from m + pawn_push us \<or> move_to m = move_from m + 2 * pawn_push us)"
  proof (cases us)
    case WHITE
    then have stm: "side_to_move pos = WHITE" using us by simp
    show ?thesis
      using m unfolding pawn_direct_single_checks_def pawn_direct_double_checks_def Let_def stm
        WHITE them ksq
      by (auto simp: piece_bb_defs bb_squares_push_bit black_pawn_attacks_def
          square_is_empty_def pawn_of_color_def pawn_push_def)
  next
    case BLACK
    then have stm: "side_to_move pos = BLACK" using us by simp
    have "m \<in> set (pawn_direct_single_checks pos dc)"
      using m black_double_direct_empty[OF ok stm, of dc] by simp
    then show ?thesis
      unfolding pawn_direct_single_checks_def Let_def stm BLACK them ksq
      by (auto simp: piece_bb_defs bb_squares_drop_bit white_pawn_attacks_def
          square_is_empty_def pawn_of_color_def pawn_push_def add.commute)
  qed
  then have "square_is_ok (move_to m)" by (auto simp: bb_squares_def square_is_ok_def)
  then have "ksq \<in> bb_squares (pawn_attacks us (move_to m))"
    using core pawn_attacks_sym[OF k, of "move_to m" us] them by simp
  then show ?thesis using core by simp
qed

theorem direct_pawn_checks_land_on_check_squares_witness:
  "pos_is_ok pos_white_pawn_e2_king_f5 \<and> \<not> is_check pos_white_pawn_e2_king_f5
   \<and> make_move 12 28 \<in> set (pawn_direct_double_checks pos_white_pawn_e2_king_f5
        (discovered_check_candidates pos_white_pawn_e2_king_f5
           (side_to_move pos_white_pawn_e2_king_f5)))
   \<and> square_is_empty pos_white_pawn_e2_king_f5 (move_to (make_move 12 28))
   \<and> king_square pos_white_pawn_e2_king_f5 (opposite_color (side_to_move pos_white_pawn_e2_king_f5))
       \<in> bb_squares (pawn_attacks (side_to_move pos_white_pawn_e2_king_f5)
                        (move_to (make_move 12 28)))"
proof -
  have a: "pos_is_ok pos_white_pawn_e2_king_f5" by code_simp
  have b: "\<not> is_check pos_white_pawn_e2_king_f5" by code_simp
  have c: "make_move 12 28 \<in> set (pawn_direct_double_checks pos_white_pawn_e2_king_f5
        (discovered_check_candidates pos_white_pawn_e2_king_f5
           (side_to_move pos_white_pawn_e2_king_f5)))" by code_simp
  note r = direct_pawn_checks_land_on_check_squares[OF a b refl refl refl refl disjI2, OF c]
  show ?thesis using a b c r by (intro conjI) (elim conjE, assumption)+
qed

text \<open>
  The mask of Black's double pushes has two effects outside the claim. It loses real
  checks: with the white king on e4 the double push f7-f5 gives check (f5 is a square from
  which a black pawn attacks e4), and it is not generated. And in a position that is not
  well-formed, with the white king on g6 already attacked by the pawn on f7 and Black to
  move, f7-f5 is emitted as a direct check although f5 is not a square from which a black
  pawn attacks g6.
\<close>

lemma black_double_push_check_missed:
  "\<not> is_check pos_black_pawn_f7_king_e4
   \<and> bit_is_set (white_pawn_attacks (king_square pos_black_pawn_f7_king_e4 WHITE)) 37
   \<and> bit_is_set (pawn_attacks BLACK 37) (king_square pos_black_pawn_f7_king_e4 WHITE)
   \<and> square_is_empty pos_black_pawn_f7_king_e4 45
   \<and> square_is_empty pos_black_pawn_f7_king_e4 37
   \<and> generate_checks pos_black_pawn_f7_king_e4 0 = []"
  by code_simp

lemma black_double_push_on_ill_formed_position:
  "\<not> pos_is_ok pos_black_pawn_f7_king_g6
   \<and> make_move 53 37 \<in> set (pawn_direct_double_checks pos_black_pawn_f7_king_g6
        (discovered_check_candidates pos_black_pawn_f7_king_g6 BLACK))
   \<and> \<not> bit_is_set (white_pawn_attacks (king_square pos_black_pawn_f7_king_g6 WHITE)) 37"
  by code_simp

end
